theory Spec2Isabelle
  imports Main
begin

section \<open>The puzzle state (class FWDCstate)\<close>

text \<open>
  One game state of the farmer, wolf, duck and corn puzzle: for each of the four, whether
  it stands on the left bank of the river.
\<close>

record FWDCstate =
  FL :: bool
  WL :: bool
  DL :: bool
  CL :: bool

text \<open>The default constructor \<^verbatim>\<open>FWDCstate()\<close>: everything on the right bank.\<close>

definition FWDCstate0 :: FWDCstate where
  "FWDCstate0 = \<lparr>FL = False, WL = False, DL = False, CL = False\<rparr>"

text \<open>The constructor \<^verbatim>\<open>FWDCstate(FF, WW, DD, CC)\<close>.\<close>

definition FWDCstate4 :: "bool \<Rightarrow> bool \<Rightarrow> bool \<Rightarrow> bool \<Rightarrow> FWDCstate" where
  "FWDCstate4 FF WW DD CC = \<lparr>FL = FF, WL = WW, DL = DD, CL = CC\<rparr>"

text \<open>\<^verbatim>\<open>operator<\<close>, the key order of the generated table.\<close>

definition state_less :: "FWDCstate \<Rightarrow> FWDCstate \<Rightarrow> bool" where
  "state_less s other =
     (if FL s \<noteq> FL other then FL other
      else if WL s \<noteq> WL other then WL other
      else if DL s \<noteq> DL other then DL other
      else if CL s \<noteq> CL other then CL other
      else False)"

text \<open>\<^verbatim>\<open>operator==\<close> and \<^verbatim>\<open>operator!=\<close>.\<close>

definition state_eq :: "FWDCstate \<Rightarrow> FWDCstate \<Rightarrow> bool" where
  "state_eq s other = (FL s = FL other \<and> WL s = WL other \<and> DL s = DL other \<and> CL s = CL other)"

definition state_neq :: "FWDCstate \<Rightarrow> FWDCstate \<Rightarrow> bool" where
  "state_neq s other = (FL s \<noteq> FL other \<or> WL s \<noteq> WL other \<or> DL s \<noteq> DL other \<or> CL s \<noteq> CL other)"

definition isWinning :: "FWDCstate \<Rightarrow> bool" where
  "isWinning s = (FL s \<and> WL s \<and> DL s \<and> CL s)"

text \<open>
  The heuristic \<^verbatim>\<open>h()\<close>: the number of cargo items still on the right bank. The
  farmer's term is commented out in the source, so it is absent here too.
\<close>

definition h :: "FWDCstate \<Rightarrow> int" where
  "h s = of_bool (\<not> WL s) + of_bool (\<not> DL s) + of_bool (\<not> CL s)"

definition canMoveFW :: "FWDCstate \<Rightarrow> bool" where
  "canMoveFW s = (FL s = WL s \<and> DL s \<noteq> CL s)"

definition canMoveFC :: "FWDCstate \<Rightarrow> bool" where
  "canMoveFC s = (FL s = CL s \<and> WL s \<noteq> DL s)"

definition canMoveF :: "FWDCstate \<Rightarrow> bool" where
  "canMoveF s = (DL s \<noteq> CL s \<and> WL s \<noteq> DL s)"

definition canMoveFD :: "FWDCstate \<Rightarrow> bool" where
  "canMoveFD s = (FL s = DL s)"

text \<open>
  \<^verbatim>\<open>nextStates()\<close>: the vector is filled in the order wolf, duck, corn, farmer alone.
\<close>

definition nextStates :: "FWDCstate \<Rightarrow> FWDCstate list" where
  "nextStates s =
     (if canMoveFW s then [FWDCstate4 (\<not> FL s) (\<not> WL s) (DL s) (CL s)] else []) @
     (if canMoveFD s then [FWDCstate4 (\<not> FL s) (WL s) (\<not> DL s) (CL s)] else []) @
     (if canMoveFC s then [FWDCstate4 (\<not> FL s) (WL s) (DL s) (\<not> CL s)] else []) @
     (if canMoveF s then [FWDCstate4 (\<not> FL s) (WL s) (DL s) (CL s)] else [])"

text \<open>\<^verbatim>\<open>toString()\<close>: the left bank, two bars, the right bank.\<close>

definition toString :: "FWDCstate \<Rightarrow> string" where
  "toString s =
     ''['' @ (if FL s then ''F'' else '''') @ (if WL s then ''W'' else '''') @
     (if DL s then ''D'' else '''') @ (if CL s then ''C'' else '''') @ ''||'' @
     (if \<not> FL s then ''F'' else '''') @ (if \<not> WL s then ''W'' else '''') @
     (if \<not> DL s then ''D'' else '''') @ (if \<not> CL s then ''C'' else '''') @ '']''"

section \<open>Search nodes on a heap (struct PSNode)\<close>

text \<open>
  Nodes live on the C++ heap and refer to each other by pointer. The heap is the list of
  all nodes allocated so far, a pointer is an index into it, and the null pointer is
  \<open>None\<close>. \<^verbatim>\<open>new\<close> appends to the list. The \<^verbatim>\<open>int\<close> fields are modelled as
  unbounded integers: signed overflow is undefined in C++, and every cost of the
  program's run stays below ten.
\<close>

record PSNode =
  state :: FWDCstate
  parent :: "nat option"
  cost2reach :: int
  projectedCost :: int
  children :: "nat list"

type_synonym heap = "PSNode list"

text \<open>The frontier \<^verbatim>\<open>multimap<int, PSNode *>\<close>: the entries in iteration order.\<close>

type_synonym frontier = "(int \<times> nat) list"

datatype error = OutOfFuel | BadPointer

text \<open>
  \<^verbatim>\<open>multimap::insert\<close>: the new entry goes behind every entry whose key is not greater
  (since C++11 an equal key is inserted at the upper bound of its range).
\<close>

fun frontier_insert :: "int \<times> nat \<Rightarrow> frontier \<Rightarrow> frontier" where
  "frontier_insert kp [] = [kp]"
| "frontier_insert kp (e # es) =
     (if fst e \<le> fst kp then e # frontier_insert kp es else kp # e # es)"

text \<open>
  The constructor \<^verbatim>\<open>PSNode(newstate, from)\<close>. It reads \<^verbatim>\<open>from->cost2reach\<close>, so the
  heap is a parameter, and a pointer outside the heap is an error.
\<close>

definition newPSNode :: "heap \<Rightarrow> FWDCstate \<Rightarrow> nat option \<Rightarrow> error + PSNode" where
  "newPSNode H newstate from =
     (case from of
        None \<Rightarrow> Inr \<lparr>state = newstate, parent = None, cost2reach = 0,
                     projectedCost = h newstate, children = []\<rparr>
      | Some p \<Rightarrow>
          if p < length H
          then Inr \<lparr>state = newstate, parent = Some p, cost2reach = cost2reach (H ! p) + 1,
                    projectedCost = h newstate, children = []\<rparr>
          else Inl BadPointer)"

text \<open>
  The frontier part of \<^verbatim>\<open>updateCostCond\<close>: the loop walks the entries whose key equals
  the node's old \<^verbatim>\<open>cost2reach\<close> (from \<^verbatim>\<open>lower_bound\<close> to \<^verbatim>\<open>upper_bound\<close>), and at the
  first one that points to this node erases it, inserts the node again under
  \<^verbatim>\<open>newcost + projectedCost\<close> and stops.
\<close>

definition rekey :: "int \<Rightarrow> nat \<Rightarrow> PSNode \<Rightarrow> frontier \<Rightarrow> frontier" where
  "rekey newcost this nd fr =
     (if (cost2reach nd, this) \<in> set fr
      then frontier_insert (newcost + projectedCost nd, this) (remove1 (cost2reach nd, this) fr)
      else fr)"

text \<open>
  \<^verbatim>\<open>updateCostCond\<close> calls itself on every child, and the children may lead back to a
  node already visited, so the recursion is bounded by a fuel that counts its depth.
  \<open>updateChildren\<close> is the loop over \<^verbatim>\<open>children[i]\<close>; the heap and the frontier are
  shared by all calls and threaded through them.
\<close>

fun updateCostCond ::
    "nat \<Rightarrow> int \<Rightarrow> nat option \<Rightarrow> nat \<Rightarrow> heap \<times> frontier \<Rightarrow> error + (bool \<times> heap \<times> frontier)"
  and updateChildren ::
    "nat \<Rightarrow> int \<Rightarrow> nat \<Rightarrow> nat list \<Rightarrow> heap \<times> frontier \<Rightarrow> error + (heap \<times> frontier)"
where
  "updateCostCond 0 newcost newparent this (H, fr) = Inl OutOfFuel"
| "updateCostCond (Suc fuel) newcost newparent this (H, fr) =
     (if this < length H then
        if newcost < cost2reach (H ! this) then
          (let fr1 = rekey newcost this (H ! this) fr;
               H1 = H[this := (H ! this)\<lparr>cost2reach := newcost, parent := newparent\<rparr>]
           in case updateChildren fuel (newcost + 1) this (children (H1 ! this)) (H1, fr1) of
                Inl e \<Rightarrow> Inl e
              | Inr (H2, fr2) \<Rightarrow> Inr (True, H2, fr2))
        else Inr (False, H, fr)
      else Inl BadPointer)"
| "updateChildren fuel newcost this [] (H, fr) = Inr (H, fr)"
| "updateChildren fuel newcost this (c # cs) (H, fr) =
     (case updateCostCond fuel newcost (Some this) c (H, fr) of
        Inl e \<Rightarrow> Inl e
      | Inr (b, H', fr') \<Rightarrow> updateChildren fuel newcost this cs (H', fr'))"

section \<open>The search driver (main)\<close>

text \<open>
  What the driver prints for each expansion: the node it expands and, for each successor
  it handles, the state, how it was handled and the \<^verbatim>\<open>g\<close> and \<^verbatim>\<open>h\<close> of its node (the
  printed \<^verbatim>\<open>f\<close> is their sum). The listing of the frontier at the top of each iteration
  is not recorded.
\<close>

datatype report = Updated_F | No_update | New_node

datatype event = Expand FWDCstate | Generated FWDCstate report int int

text \<open>
  The variables of \<^verbatim>\<open>main\<close> that live across iterations, with the heap of nodes.
  \<^verbatim>\<open>generated\<close> is a \<^verbatim>\<open>map<FWDCstate, PSNode *>\<close>.
\<close>

record search =
  nodes :: heap
  generated :: "FWDCstate \<rightharpoonup> nat"
  frontier :: frontier
  winningNode :: "nat option"
  printed :: "event list"

text \<open>\<^verbatim>\<open>map::insert\<close> keeps the old entry when the key is already present.\<close>

definition generated_insert :: "FWDCstate \<Rightarrow> nat \<Rightarrow> (FWDCstate \<rightharpoonup> nat) \<Rightarrow> (FWDCstate \<rightharpoonup> nat)" where
  "generated_insert s p g = (case g s of None \<Rightarrow> g(s \<mapsto> p) | Some q \<Rightarrow> g)"

text \<open>
  Lines 250 to 256: \<^verbatim>\<open>tempNode->children.push_back(generated[s])\<close> and the line printed
  after it. \<^verbatim>\<open>generated[s]\<close> on a missing key would yield a null pointer, which the
  printing dereferences.
\<close>

definition add_child :: "nat \<Rightarrow> FWDCstate \<Rightarrow> report \<Rightarrow> search \<Rightarrow> error + search" where
  "add_child t s r \<sigma> =
     (case generated \<sigma> s of
        None \<Rightarrow> Inl BadPointer
      | Some q \<Rightarrow>
          if t < length (nodes \<sigma>) \<and> q < length (nodes \<sigma>) then
            (let H = (nodes \<sigma>)[t := (nodes \<sigma> ! t)\<lparr>children := children (nodes \<sigma> ! t) @ [q]\<rparr>]
             in Inr (\<sigma>\<lparr>nodes := H,
                       printed := printed \<sigma> @ [Generated s r (cost2reach (H ! q)) (projectedCost (H ! q))]\<rparr>))
          else Inl BadPointer)"

text \<open>
  The body of the inner loop (lines 230 to 257) for the successor \<open>s\<close> of the node
  \<open>t\<close> under expansion (\<^verbatim>\<open>tempNode\<close>). The guard compares \<open>s\<close> with the state of
  \<open>t\<close> itself.
\<close>

definition generate :: "nat \<Rightarrow> nat \<Rightarrow> FWDCstate \<Rightarrow> search \<Rightarrow> error + search" where
  "generate fuel t s \<sigma> =
     (if t < length (nodes \<sigma>) then
        if state_neq s (state (nodes \<sigma> ! t)) then
          (case generated \<sigma> s of
             Some q \<Rightarrow>
               (case updateCostCond fuel (cost2reach (nodes \<sigma> ! t) + 1) (Some t) q
                       (nodes \<sigma>, frontier \<sigma>) of
                  Inl e \<Rightarrow> Inl e
                | Inr (b, H, fr) \<Rightarrow>
                    add_child t s (if b then Updated_F else No_update)
                      (\<sigma>\<lparr>nodes := H, frontier := fr\<rparr>))
           | None \<Rightarrow>
               (case newPSNode (nodes \<sigma>) s (Some t) of
                  Inl e \<Rightarrow> Inl e
                | Inr workNode \<Rightarrow>
                    (let w = length (nodes \<sigma>)
                     in add_child t s New_node
                          (\<sigma>\<lparr>nodes := nodes \<sigma> @ [workNode],
                             generated := generated_insert (state workNode) w (generated \<sigma>),
                             frontier := frontier_insert
                               (cost2reach workNode + projectedCost workNode, w) (frontier \<sigma>),
                             winningNode := (if isWinning (state workNode) then Some w
                                             else winningNode \<sigma>)\<rparr>))))
        else Inr \<sigma>
      else Inl BadPointer)"

text \<open>
  The inner loop over \<^verbatim>\<open>tempChildren\<close>: it stops as soon as a winning node is recorded.
\<close>

fun expand :: "nat \<Rightarrow> nat \<Rightarrow> FWDCstate list \<Rightarrow> search \<Rightarrow> error + search" where
  "expand fuel t [] \<sigma> = Inr \<sigma>"
| "expand fuel t (s # ss) \<sigma> =
     (if winningNode \<sigma> = None then
        (case generate fuel t s \<sigma> of
           Inl e \<Rightarrow> Inl e
         | Inr \<sigma>' \<Rightarrow> expand fuel t ss \<sigma>')
      else Inr \<sigma>)"

text \<open>
  One iteration of the outer loop on a frontier whose first entry is \<open>e\<close>: the node of
  the first entry is taken, the entry erased and the node expanded.
\<close>

definition iteration :: "nat \<Rightarrow> int \<times> nat \<Rightarrow> frontier \<Rightarrow> search \<Rightarrow> error + search" where
  "iteration fuel e es \<sigma> =
     (let tempNode = snd e in
      if tempNode < length (nodes \<sigma>) then
        expand fuel tempNode (nextStates (state (nodes \<sigma> ! tempNode)))
          (\<sigma>\<lparr>frontier := es, printed := printed \<sigma> @ [Expand (state (nodes \<sigma> ! tempNode))]\<rparr>)
      else Inl BadPointer)"

text \<open>
  The outer loop, \<^verbatim>\<open>while (winningNode == NULL and !frontier.empty())\<close>. The first
  fuel bounds the recursion of \<open>updateCostCond\<close>, the second the number of iterations.
\<close>

fun search_loop :: "nat \<Rightarrow> nat \<Rightarrow> search \<Rightarrow> error + search" where
  "search_loop fuel n \<sigma> =
     (if winningNode \<sigma> = None then
        (case frontier \<sigma> of
           [] \<Rightarrow> Inr \<sigma>
         | e # es \<Rightarrow>
             (case n of
                0 \<Rightarrow> Inl OutOfFuel
              | Suc m \<Rightarrow>
                  (case iteration fuel e es \<sigma> of
                     Inl err \<Rightarrow> Inl err
                   | Inr \<sigma>' \<Rightarrow> search_loop fuel m \<sigma>')))
      else Inr \<sigma>)"

declare search_loop.simps [simp del]

text \<open>
  The state before the loop (lines 192 to 207): the start node is allocated, entered in
  the table and put on the frontier under the key 1.
\<close>

definition init :: "error + search" where
  "init =
     (case newPSNode [] FWDCstate0 None of
        Inl e \<Rightarrow> Inl e
      | Inr tempNode \<Rightarrow>
          Inr \<lparr>nodes = [tempNode],
               generated = generated_insert (state tempNode) 0 Map.empty,
               frontier = frontier_insert (1, 0) [],
               winningNode = None,
               printed = []\<rparr>)"

text \<open>
  The loop of lines 265 to 269 visits the winning node, its parent, and so on up to the
  node without a parent. \<open>parent_chain\<close> is the list of nodes it visits, in that order;
  a chain of parents that never ends uses up the fuel.
\<close>

fun parent_chain :: "nat \<Rightarrow> heap \<Rightarrow> nat option \<Rightarrow> error + nat list" where
  "parent_chain n H None = Inr []"
| "parent_chain 0 H (Some w) = Inl OutOfFuel"
| "parent_chain (Suc n) H (Some w) =
     (if w < length H then
        (case parent_chain n H (parent (H ! w)) of
           Inl e \<Rightarrow> Inl e
         | Inr ws \<Rightarrow> Inr (w # ws))
      else Inl BadPointer)"

text \<open>The body of that loop, run over the visited nodes: each state goes in front.\<close>

fun outpath :: "heap \<Rightarrow> nat list \<Rightarrow> string \<Rightarrow> string" where
  "outpath H [] acc = acc"
| "outpath H (w # ws) acc =
     outpath H ws
       ((if parent (H ! w) \<noteq> None then '' -> '' else []) @ toString (state (H ! w)) @ acc)"

text \<open>
  The whole program: the final search state and the lines printed after the loop.
\<close>

definition main :: "nat \<Rightarrow> error + (search \<times> string list)" where
  "main fuel =
     (case init of
        Inl e \<Rightarrow> Inl e
      | Inr \<sigma>0 \<Rightarrow>
          (case search_loop fuel fuel \<sigma>0 of
             Inl e \<Rightarrow> Inl e
           | Inr \<sigma> \<Rightarrow>
               (case winningNode \<sigma> of
                  None \<Rightarrow> Inr (\<sigma>, [''No path to goal!''])
                | Some w \<Rightarrow>
                    (case parent_chain fuel (nodes \<sigma>) (Some w) of
                       Inl e \<Rightarrow> Inl e
                     | Inr ws \<Rightarrow>
                         Inr (\<sigma>, [''Winning state reached.'', outpath (nodes \<sigma>) ws []])))))"

section \<open>Notions used to state the properties\<close>

subsection \<open>The puzzle\<close>

text \<open>
  A state is safe when the duck shares a bank with the wolf or with the corn only if the
  farmer is on that bank too.
\<close>

definition safe :: "FWDCstate \<Rightarrow> bool" where
  "safe s = ((DL s = WL s \<longrightarrow> FL s = DL s) \<and> (DL s = CL s \<longrightarrow> FL s = DL s))"

text \<open>The cargo items that change bank between \<open>s\<close> and \<open>t\<close>, one entry for each.\<close>

definition carried :: "FWDCstate \<Rightarrow> FWDCstate \<Rightarrow> bool list" where
  "carried s t = filter (\<lambda>b. b) [WL t \<noteq> WL s, DL t \<noteq> DL s, CL t \<noteq> CL s]"

text \<open>
  One crossing: the farmer changes bank, every item that changes bank started on the
  farmer's bank, and at most one item changes bank.
\<close>

definition single_move :: "FWDCstate \<Rightarrow> FWDCstate \<Rightarrow> bool" where
  "single_move s t =
     (FL t = (\<not> FL s) \<and>
      (WL t \<noteq> WL s \<longrightarrow> WL s = FL s) \<and>
      (DL t \<noteq> DL s \<longrightarrow> DL s = FL s) \<and>
      (CL t \<noteq> CL s \<longrightarrow> CL s = FL s) \<and>
      length (carried s t) \<le> 1)"

text \<open>\<open>reaches n s t\<close>: some sequence of exactly \<open>n\<close> moves of \<open>nextStates\<close> leads from \<open>s\<close> to \<open>t\<close>.\<close>

fun reaches :: "nat \<Rightarrow> FWDCstate \<Rightarrow> FWDCstate \<Rightarrow> bool" where
  "reaches 0 s t = (s = t)"
| "reaches (Suc n) s t = (\<exists>u \<in> set (nextStates s). reaches n u t)"

subsection \<open>Heaps\<close>

text \<open>Every child pointer of every node points into the heap.\<close>

definition wf_heap :: "heap \<Rightarrow> bool" where
  "wf_heap H = (\<forall>nd \<in> set H. \<forall>c \<in> set (children nd). c < length H)"

text \<open>
  How far the costs of a heap lie above a cost \<open>c\<close>, summed over its nodes. Every
  accepted update lowers it, which bounds the depth of the recursion.
\<close>

definition slack :: "heap \<Rightarrow> int \<Rightarrow> nat" where
  "slack H c = sum_list (map (\<lambda>nd. nat (cost2reach nd - c)) H)"

text \<open>
  \<open>heap_le H H'\<close>: \<open>H'\<close> has the nodes of \<open>H\<close> with the same states, children and
  heuristic values, and no cost has grown.
\<close>

definition heap_le :: "heap \<Rightarrow> heap \<Rightarrow> bool" where
  "heap_le H H' =
     (length H' = length H \<and>
      (\<forall>i < length H. state (H' ! i) = state (H ! i) \<and> children (H' ! i) = children (H ! i) \<and>
         projectedCost (H' ! i) = projectedCost (H ! i) \<and> cost2reach (H' ! i) \<le> cost2reach (H ! i)))"

subsection \<open>The search\<close>

text \<open>
  The table is consistent with the heap: every entry leads to a node of that state, and
  every node is entered under its state. So no two nodes have the same state.
\<close>

definition table_ok :: "search \<Rightarrow> bool" where
  "table_ok \<sigma> =
     ((\<forall>s p. generated \<sigma> s = Some p \<longrightarrow> p < length (nodes \<sigma>) \<and> state (nodes \<sigma> ! p) = s) \<and>
      (\<forall>p < length (nodes \<sigma>). generated \<sigma> (state (nodes \<sigma> ! p)) = Some p))"

text \<open>The states the driver has reported as generated so far.\<close>

fun reported_by :: "event \<Rightarrow> FWDCstate list" where
  "reported_by (Expand s) = []"
| "reported_by (Generated s r g hh) = [s]"

definition reported :: "search \<Rightarrow> FWDCstate set" where
  "reported \<sigma> = set (concat (map reported_by (printed \<sigma>)))"

text \<open>
  \<open>search_grows \<sigma> \<sigma>'\<close>: from \<open>\<sigma>\<close> to \<open>\<sigma>'\<close> nodes keep their state, children lists and
  the table only gain entries, and the output is extended.
\<close>

definition search_grows :: "search \<Rightarrow> search \<Rightarrow> bool" where
  "search_grows \<sigma> \<sigma>' =
     (length (nodes \<sigma>) \<le> length (nodes \<sigma>') \<and>
      (\<forall>i < length (nodes \<sigma>). state (nodes \<sigma>' ! i) = state (nodes \<sigma> ! i) \<and>
         set (children (nodes \<sigma> ! i)) \<subseteq> set (children (nodes \<sigma>' ! i))) \<and>
      (\<forall>s q. generated \<sigma> s = Some q \<longrightarrow> generated \<sigma>' s = Some q) \<and>
      (\<exists>es. printed \<sigma>' = printed \<sigma> @ es))"

text \<open>The value of \<open>init\<close>, written out.\<close>

definition start_search :: search where
  "start_search =
     \<lparr>nodes = [\<lparr>state = FWDCstate0, parent = None, cost2reach = 0, projectedCost = 3,
                 children = []\<rparr>],
      generated = [FWDCstate0 \<mapsto> 0], frontier = [(1, 0)], winningNode = None,
      printed = []\<rparr>"

text \<open>The search state in which the program's run ends (nine iterations are what it takes).\<close>

definition final_search :: search where
  "final_search = fst (projr (main 9))"

text \<open>
  A list of nodes in which each node's parent is the next node of the list, and each
  node's state is a successor of the next node's state.
\<close>

fun legal_chain :: "heap \<Rightarrow> nat list \<Rightarrow> bool" where
  "legal_chain H [] = True"
| "legal_chain H [w] = True"
| "legal_chain H (w # v # ws) =
     (parent (H ! w) = Some v \<and> state (H ! w) \<in> set (nextStates (state (H ! v))) \<and>
      legal_chain H (v # ws))"

text \<open>
  The search state in the second iteration of the run, when the first node made has been
  taken off the frontier and is about to be expanded.
\<close>

definition second_search :: search where
  "second_search =
     \<lparr>nodes = [\<lparr>state = FWDCstate0, parent = None, cost2reach = 0, projectedCost = 3,
                 children = [1]\<rparr>,
               \<lparr>state = FWDCstate4 True False True False, parent = Some 0, cost2reach = 1,
                 projectedCost = 2, children = []\<rparr>],
      generated = [FWDCstate0 \<mapsto> 0, FWDCstate4 True False True False \<mapsto> 1],
      frontier = [], winningNode = None,
      printed = [Expand FWDCstate0, Generated (FWDCstate4 True False True False) New_node 1 2,
                 Expand (FWDCstate4 True False True False)]\<rparr>"

section \<open>Properties of the puzzle\<close>

lemmas move_defs =
  nextStates_def canMoveFW_def canMoveFD_def canMoveFC_def canMoveF_def FWDCstate4_def

lemma in_nextStates:
  "t \<in> set (nextStates s) \<longleftrightarrow>
     (canMoveFW s \<and> t = FWDCstate4 (\<not> FL s) (\<not> WL s) (DL s) (CL s)) \<or>
     (canMoveFD s \<and> t = FWDCstate4 (\<not> FL s) (WL s) (\<not> DL s) (CL s)) \<or>
     (canMoveFC s \<and> t = FWDCstate4 (\<not> FL s) (WL s) (DL s) (\<not> CL s)) \<or>
     (canMoveF s \<and> t = FWDCstate4 (\<not> FL s) (WL s) (DL s) (CL s))"
  by (simp add: nextStates_def) blast

lemma state_neq_iff: "state_neq s t \<longleftrightarrow> s \<noteq> t"
  by (cases s, cases t) (auto simp: state_neq_def)

lemma state_eq_iff: "state_eq s t \<longleftrightarrow> s = t"
  by (cases s, cases t) (auto simp: state_eq_def)

lemma isWinning_iff: "isWinning g \<longleftrightarrow> g = FWDCstate4 True True True True"
  by (cases g) (auto simp: isWinning_def FWDCstate4_def)

lemma nextStates_flip: "t \<in> set (nextStates s) \<Longrightarrow> FL t = (\<not> FL s)"
  by (auto simp: move_defs split: if_splits)

text \<open>Every move can be taken back: the guards only look at what the move leaves alone.\<close>

lemma nextStates_sym:
  assumes "t \<in> set (nextStates s)"
  shows "s \<in> set (nextStates t)"
proof -
  obtain a b c d where s: "s = \<lparr>FL = a, WL = b, DL = c, CL = d\<rparr>"
    by (cases s)
  from assms show ?thesis
    unfolding in_nextStates s
    by (elim disjE conjE;
        simp add: canMoveFW_def canMoveFD_def canMoveFC_def canMoveF_def FWDCstate4_def)
qed

text \<open>
  C5. Every element of \<open>nextStates s\<close> is one legal crossing from \<open>s\<close>: the farmer
  changes bank, together with at most one item, which started on the farmer's bank, and in
  the state reached the duck is with the wolf or with the corn only where the farmer is.
\<close>

theorem nextStates_legal:
  "t \<in> set (nextStates s) \<Longrightarrow> single_move s t \<and> safe t"
  by (auto simp: move_defs single_move_def safe_def carried_def split: if_splits)

theorem nextStates_legal_witness:
  "FWDCstate4 True False True False \<in> set (nextStates FWDCstate0) \<and>
   single_move FWDCstate0 (FWDCstate4 True False True False) \<and>
   safe (FWDCstate4 True False True False)"
proof -
  have m: "FWDCstate4 True False True False \<in> set (nextStates FWDCstate0)"
    by (simp add: move_defs FWDCstate0_def)
  from nextStates_legal[OF m] m show ?thesis by blast
qed

lemma h_step: "t \<in> set (nextStates s) \<Longrightarrow> h s \<le> h t + 1"
  by (auto simp: move_defs h_def split: if_splits)

lemma h_winning: "isWinning g \<Longrightarrow> h g = 0"
  by (simp add: isWinning_def h_def)

lemma h_reaches: "reaches n s g \<Longrightarrow> h s \<le> h g + int n"
proof (induction n arbitrary: s)
  case 0
  then show ?case by simp
next
  case (Suc n)
  then obtain u where u: "u \<in> set (nextStates s)" "reaches n u g"
    by auto
  from Suc.IH[OF u(2)] h_step[OF u(1)] show ?case by simp
qed

lemma reaches_7: "reaches 7 FWDCstate0 (FWDCstate4 True True True True)"
  by code_simp

text \<open>
  C6. \<open>h s\<close> is never negative, and it is admissible: whenever some sequence of \<open>n\<close>
  legal moves leads from \<open>s\<close> to the goal, \<open>h s\<close> is at most \<open>n\<close>; so it is at most
  the least such \<open>n\<close>.
\<close>

theorem h_admissible:
  "0 \<le> h s \<and> (\<forall>n g. isWinning g \<and> reaches n s g \<longrightarrow> h s \<le> int n)"
  using h_reaches h_winning by (fastforce simp: h_def)

theorem h_admissible_witness:
  "isWinning (FWDCstate4 True True True True) \<and>
   reaches 7 FWDCstate0 (FWDCstate4 True True True True) \<and>
   0 \<le> h FWDCstate0 \<and> h FWDCstate0 \<le> 7"
proof -
  have w: "isWinning (FWDCstate4 True True True True)"
    by (simp add: isWinning_iff)
  from h_admissible[of FWDCstate0] w reaches_7
  have "0 \<le> h FWDCstate0 \<and> h FWDCstate0 \<le> int 7"
    by blast
  with w reaches_7 show ?thesis by simp
qed

section \<open>Properties of updateCostCond\<close>

lemma heap_le_refl: "heap_le H H"
  by (simp add: heap_le_def)

lemma heap_le_trans: "heap_le H1 H2 \<Longrightarrow> heap_le H2 H3 \<Longrightarrow> heap_le H1 H3"
  by (fastforce simp: heap_le_def)

lemma heap_le_update:
  "n < length H \<Longrightarrow> c < cost2reach (H ! n) \<Longrightarrow>
   heap_le H (H[n := (H ! n)\<lparr>cost2reach := c, parent := p\<rparr>])"
  by (simp add: heap_le_def nth_list_update)

lemma updateCostCond_heap_le:
  "updateCostCond f c p n S = Inr (b, H', fr') \<Longrightarrow> heap_le (fst S) H'"
  "updateChildren f c' n' cs T = Inr (H'', fr'') \<Longrightarrow> heap_le (fst T) H''"
proof (induction f c p n S and f c' n' cs T arbitrary: b H' fr' and H'' fr''
       rule: updateCostCond_updateChildren.induct)
  case (1 newcost newparent this H fr)
  then show ?case by simp
next
  case (2 fuel newcost newparent this H fr)
  show ?case
  proof (cases "this < length H \<and> newcost < cost2reach (H ! this)")
    case True
    let ?H1 = "H[this := (H ! this)\<lparr>cost2reach := newcost, parent := newparent\<rparr>]"
    let ?fr1 = "rekey newcost this (H ! this) fr"
    from True "2.prems" have "updateChildren fuel (newcost + 1) this (children (?H1 ! this)) (?H1, ?fr1) = Inr (H', fr')"
      by (auto simp: Let_def split: sum.splits)
    with "2.IH"[of ?fr1 ?H1 H' fr'] True have "heap_le ?H1 H'" by simp
    with heap_le_update[of this H newcost newparent] True show ?thesis
      by (auto intro: heap_le_trans)
  next
    case False
    with "2.prems" show ?thesis
      by (auto simp: heap_le_refl split: if_splits)
  qed
next
  case (3 fuel newcost this H fr)
  then show ?case by (simp add: heap_le_refl)
next
  case (4 fuel newcost this c cs H fr)
  from "4.prems" obtain b H1 fr1 where
    a: "updateCostCond fuel newcost (Some this) c (H, fr) = Inr (b, H1, fr1)" and
    r: "updateChildren fuel newcost this cs (H1, fr1) = Inr (H'', fr'')"
    by (auto split: sum.splits)
  from "4.IH"(1)[OF a] have "heap_le H H1" by simp
  moreover from "4.IH"(2)[OF a refl refl r] have "heap_le H1 H''" by simp
  ultimately show ?case by (auto intro: heap_le_trans)
qed

lemma updateCostCond_keeps_cheap:
  "updateCostCond f c p n S = Inr (b, H', fr') \<Longrightarrow> i < length (fst S) \<Longrightarrow>
     cost2reach (fst S ! i) \<le> c \<Longrightarrow> H' ! i = fst S ! i"
  "updateChildren f c' n' cs T = Inr (H'', fr'') \<Longrightarrow> i < length (fst T) \<Longrightarrow>
     cost2reach (fst T ! i) \<le> c' \<Longrightarrow> H'' ! i = fst T ! i"
proof (induction f c p n S and f c' n' cs T arbitrary: b H' fr' and H'' fr''
       rule: updateCostCond_updateChildren.induct)
  case (1 newcost newparent this H fr)
  then show ?case by simp
next
  case (2 fuel newcost newparent this H fr)
  show ?case
  proof (cases "this < length H \<and> newcost < cost2reach (H ! this)")
    case True
    let ?H1 = "H[this := (H ! this)\<lparr>cost2reach := newcost, parent := newparent\<rparr>]"
    let ?fr1 = "rekey newcost this (H ! this) fr"
    from True "2.prems"(1)
    have r: "updateChildren fuel (newcost + 1) this (children (?H1 ! this)) (?H1, ?fr1) = Inr (H', fr')"
      by (auto simp: Let_def split: sum.splits)
    from True "2.prems"(3) have ne: "i \<noteq> this" by auto
    with "2.prems"(2,3) have "i < length (fst (?H1, ?fr1))" "cost2reach (fst (?H1, ?fr1) ! i) \<le> newcost + 1"
      by simp_all
    from "2.IH"[OF _ _ refl refl r this] True have "H' ! i = ?H1 ! i" by simp
    with ne show ?thesis by simp
  next
    case False
    with "2.prems" show ?thesis
      by (auto split: if_splits)
  qed
next
  case (3 fuel newcost this H fr)
  then show ?case by simp
next
  case (4 fuel newcost this c cs H fr)
  from "4.prems"(1) obtain b H1 fr1 where
    a: "updateCostCond fuel newcost (Some this) c (H, fr) = Inr (b, H1, fr1)" and
    r: "updateChildren fuel newcost this cs (H1, fr1) = Inr (H'', fr'')"
    by (auto split: sum.splits)
  from "4.IH"(1)[OF a "4.prems"(2,3)] have e: "H1 ! i = H ! i" by simp
  from updateCostCond_heap_le(1)[OF a] have "length H1 = length H"
    by (simp add: heap_le_def)
  with e "4.prems"(2,3) have "i < length (fst (H1, fr1))" "cost2reach (fst (H1, fr1) ! i) \<le> newcost"
    by simp_all
  from "4.IH"(2)[OF a refl refl r this] e show ?case by simp
qed

lemma slack_mono: "c \<le> c' \<Longrightarrow> slack H c' \<le> slack H c"
  unfolding slack_def by (induction H) (auto simp: nat_mono add_mono)

lemma slack_heap_le: "heap_le H H' \<Longrightarrow> slack H' c \<le> slack H c"
proof (induction H arbitrary: H')
  case Nil
  then show ?case by (simp add: heap_le_def slack_def)
next
  case (Cons nd H)
  then obtain nd' H2 where H': "H' = nd' # H2"
    by (cases H') (auto simp: heap_le_def)
  from Cons.prems have "heap_le H H2" "cost2reach nd' \<le> cost2reach nd"
    unfolding H' heap_le_def by (auto simp: nth_Cons split: nat.splits)
  with Cons.IH[of H2] show ?case
    by (simp add: H' slack_def nat_mono add_mono)
qed

lemma slack_update:
  assumes "n < length H" "c < cost2reach (H ! n)"
  shows "slack (H[n := (H ! n)\<lparr>cost2reach := c, parent := p\<rparr>]) c < slack H c"
  using assms
proof (induction H arbitrary: n)
  case Nil
  then show ?case by simp
next
  case (Cons nd H)
  show ?case
  proof (cases n)
    case 0
    with Cons.prems show ?thesis by (simp add: slack_def)
  next
    case (Suc m)
    with Cons.prems Cons.IH[of m] show ?thesis by (simp add: slack_def)
  qed
qed

lemma wf_heap_le: "heap_le H H' \<Longrightarrow> wf_heap H \<Longrightarrow> wf_heap H'"
  unfolding wf_heap_def heap_le_def by (metis in_set_conv_nth)

lemma wf_heap_children: "wf_heap H \<Longrightarrow> n < length H \<Longrightarrow> set (children (H ! n)) \<subseteq> {..<length H}"
  unfolding wf_heap_def by auto

lemma updateCostCond_returns:
  "wf_heap (fst S) \<Longrightarrow> n < length (fst S) \<Longrightarrow> slack (fst S) c < f \<Longrightarrow>
     \<exists>r. updateCostCond f c p n S = Inr r"
  "wf_heap (fst T) \<Longrightarrow> set cs \<subseteq> {..<length (fst T)} \<Longrightarrow> slack (fst T) c' < f \<Longrightarrow>
     \<exists>r. updateChildren f c' n' cs T = Inr r"
proof (induction f c p n S and f c' n' cs T
       rule: updateCostCond_updateChildren.induct)
  case (1 newcost newparent this H fr)
  then show ?case by simp
next
  case (2 fuel newcost newparent this H fr)
  show ?case
  proof (cases "newcost < cost2reach (H ! this)")
    case True
    let ?H1 = "H[this := (H ! this)\<lparr>cost2reach := newcost, parent := newparent\<rparr>]"
    let ?fr1 = "rekey newcost this (H ! this) fr"
    from "2.prems" True have le: "heap_le H ?H1"
      by (simp add: heap_le_update)
    with "2.prems" have wf: "wf_heap (fst (?H1, ?fr1))"
      by (simp add: wf_heap_le)
    from "2.prems" have "set (children (?H1 ! this)) \<subseteq> {..<length H}"
      using wf_heap_children[of H this] by simp
    then have cs: "set (children (?H1 ! this)) \<subseteq> {..<length (fst (?H1, ?fr1))}"
      by simp
    from slack_update[of this H newcost newparent] "2.prems" True
    have "slack ?H1 newcost < fuel" by simp
    with slack_mono[of newcost "newcost + 1" ?H1]
    have sl: "slack (fst (?H1, ?fr1)) (newcost + 1) < fuel" by simp
    from "2.IH"[OF _ True refl refl wf cs sl] "2.prems"
    obtain r where "updateChildren fuel (newcost + 1) this (children (?H1 ! this)) (?H1, ?fr1) = Inr r"
      by auto
    with "2.prems" True show ?thesis
      by (cases r) (auto simp: Let_def)
  next
    case False
    with "2.prems" show ?thesis by auto
  qed
next
  case (3 fuel newcost this H fr)
  then show ?case by simp
next
  case (4 fuel newcost this c cs H fr)
  from "4.prems" have "c < length (fst (H, fr))" by simp
  from "4.IH"(1)[OF "4.prems"(1) this "4.prems"(3)]
  obtain b H1 fr1 where a: "updateCostCond fuel newcost (Some this) c (H, fr) = Inr (b, H1, fr1)"
    by (metis prod_cases3)
  from updateCostCond_heap_le(1)[OF a] have le: "heap_le H H1" by simp
  with "4.prems" have wf: "wf_heap (fst (H1, fr1))"
    by (simp add: wf_heap_le)
  from le "4.prems" have cs: "set cs \<subseteq> {..<length (fst (H1, fr1))}"
    by (simp add: heap_le_def)
  from slack_heap_le[OF le, of newcost] "4.prems" have sl: "slack (fst (H1, fr1)) newcost < fuel"
    by simp
  from "4.IH"(2)[OF a refl refl wf cs sl] a show ?case by simp
qed

lemma updateCostCond_fuel_mono:
  "updateCostCond f c p n S = Inr r \<Longrightarrow> updateCostCond (f + k) c p n S = Inr r"
  "updateChildren f c' n' cs T = Inr r' \<Longrightarrow> updateChildren (f + k) c' n' cs T = Inr r'"
proof (induction f c p n S and f c' n' cs T arbitrary: r and r'
       rule: updateCostCond_updateChildren.induct)
  case (1 newcost newparent this H fr)
  then show ?case by simp
next
  case (2 fuel newcost newparent this H fr)
  show ?case
  proof (cases "this < length H \<and> newcost < cost2reach (H ! this)")
    case True
    let ?H1 = "H[this := (H ! this)\<lparr>cost2reach := newcost, parent := newparent\<rparr>]"
    let ?fr1 = "rekey newcost this (H ! this) fr"
    from True "2.prems" obtain r1 where
      r: "updateChildren fuel (newcost + 1) this (children (?H1 ! this)) (?H1, ?fr1) = Inr r1"
      by (auto simp: Let_def split: sum.splits)
    from "2.IH"[OF _ _ refl refl r] True
    have "updateChildren (fuel + k) (newcost + 1) this (children (?H1 ! this)) (?H1, ?fr1) = Inr r1"
      by simp
    with r "2.prems" True show ?thesis
      by (simp add: Let_def)
  next
    case False
    with "2.prems" show ?thesis
      by (auto split: if_splits)
  qed
next
  case (3 fuel newcost this H fr)
  then show ?case by auto
next
  case (4 fuel newcost this c cs H fr)
  from "4.prems" obtain b H1 fr1 where
    a: "updateCostCond fuel newcost (Some this) c (H, fr) = Inr (b, H1, fr1)" and
    r: "updateChildren fuel newcost this cs (H1, fr1) = Inr r'"
    by (auto split: sum.splits)
  from "4.IH"(1)[OF a] "4.IH"(2)[OF a refl refl r] show ?case by simp
qed



section \<open>Properties of the driver\<close>

lemma search_loop_0:
  "search_loop fuel 0 \<sigma> =
     (if winningNode \<sigma> = None
      then (case frontier \<sigma> of [] \<Rightarrow> Inr \<sigma> | e # es \<Rightarrow> Inl OutOfFuel)
      else Inr \<sigma>)"
  by (subst search_loop.simps) (simp split: list.splits)

lemma search_loop_Suc:
  "search_loop fuel (Suc m) \<sigma> =
     (if winningNode \<sigma> = None
      then (case frontier \<sigma> of
              [] \<Rightarrow> Inr \<sigma>
            | e # es \<Rightarrow>
                (case iteration fuel e es \<sigma> of
                   Inl err \<Rightarrow> Inl err
                 | Inr \<sigma>' \<Rightarrow> search_loop fuel m \<sigma>'))
      else Inr \<sigma>)"
  by (subst search_loop.simps) (simp split: list.splits)

lemma search_loop_stop:
  "winningNode \<sigma> \<noteq> None \<or> frontier \<sigma> = [] \<Longrightarrow> search_loop fuel n \<sigma> = Inr \<sigma>"
  by (subst search_loop.simps) auto

lemma add_child_Inr:
  assumes "add_child t s r \<sigma> = Inr \<sigma>'"
  obtains q where "generated \<sigma> s = Some q" "t < length (nodes \<sigma>)" "q < length (nodes \<sigma>)"
    "\<sigma>' = \<sigma>\<lparr>nodes := (nodes \<sigma>)[t := (nodes \<sigma> ! t)\<lparr>children := children (nodes \<sigma> ! t) @ [q]\<rparr>],
              printed := printed \<sigma> @ [Generated s r (cost2reach (nodes \<sigma> ! q)) (projectedCost (nodes \<sigma> ! q))]\<rparr>"
proof -
  from assms obtain q where q: "generated \<sigma> s = Some q"
    by (auto simp: add_child_def split: option.splits)
  with assms have v: "t < length (nodes \<sigma>)" "q < length (nodes \<sigma>)"
    by (auto simp: add_child_def split: if_splits)
  have "cost2reach ((nodes \<sigma>)[t := (nodes \<sigma> ! t)\<lparr>children := children (nodes \<sigma> ! t) @ [q]\<rparr>] ! q) = cost2reach (nodes \<sigma> ! q)"
    "projectedCost ((nodes \<sigma>)[t := (nodes \<sigma> ! t)\<lparr>children := children (nodes \<sigma> ! t) @ [q]\<rparr>] ! q) = projectedCost (nodes \<sigma> ! q)"
    using v by (simp_all add: nth_list_update)
  with assms q v have "\<sigma>' = \<sigma>\<lparr>nodes := (nodes \<sigma>)[t := (nodes \<sigma> ! t)\<lparr>children := children (nodes \<sigma> ! t) @ [q]\<rparr>],
              printed := printed \<sigma> @ [Generated s r (cost2reach (nodes \<sigma> ! q)) (projectedCost (nodes \<sigma> ! q))]\<rparr>"
    by (simp add: add_child_def Let_def)
  with q v that show thesis by blast
qed

lemma generate_cases:
  assumes "generate fuel t s \<sigma> = Inr \<sigma>'"
  obtains
    (skip) "t < length (nodes \<sigma>)" "s = state (nodes \<sigma> ! t)" "\<sigma>' = \<sigma>"
  | (regen) q b H fr where "t < length (nodes \<sigma>)" "s \<noteq> state (nodes \<sigma> ! t)"
      "generated \<sigma> s = Some q"
      "updateCostCond fuel (cost2reach (nodes \<sigma> ! t) + 1) (Some t) q (nodes \<sigma>, frontier \<sigma>) = Inr (b, H, fr)"
      "add_child t s (if b then Updated_F else No_update) (\<sigma>\<lparr>nodes := H, frontier := fr\<rparr>) = Inr \<sigma>'"
  | (new) workNode where "t < length (nodes \<sigma>)" "s \<noteq> state (nodes \<sigma> ! t)"
      "generated \<sigma> s = None"
      "workNode = \<lparr>state = s, parent = Some t, cost2reach = cost2reach (nodes \<sigma> ! t) + 1,
                    projectedCost = h s, children = []\<rparr>"
      "add_child t s New_node
         (\<sigma>\<lparr>nodes := nodes \<sigma> @ [workNode],
            generated := (generated \<sigma>)(s \<mapsto> length (nodes \<sigma>)),
            frontier := frontier_insert (cost2reach workNode + projectedCost workNode, length (nodes \<sigma>)) (frontier \<sigma>),
            winningNode := (if isWinning s then Some (length (nodes \<sigma>)) else winningNode \<sigma>)\<rparr>) = Inr \<sigma>'"
proof -
  from assms have t: "t < length (nodes \<sigma>)"
    by (auto simp: generate_def split: if_splits)
  show thesis
  proof (cases "s = state (nodes \<sigma> ! t)")
    case True
    with assms t have "\<sigma>' = \<sigma>"
      by (simp add: generate_def state_neq_iff)
    with t True skip show thesis by blast
  next
    case ne: False
    show thesis
    proof (cases "generated \<sigma> s")
      case None
      with assms t ne show thesis
        by (intro new[OF t ne None refl])
           (simp add: generate_def state_neq_iff newPSNode_def Let_def generated_insert_def)
    next
      case (Some q)
      with assms t ne obtain b H fr where
        "updateCostCond fuel (cost2reach (nodes \<sigma> ! t) + 1) (Some t) q (nodes \<sigma>, frontier \<sigma>) = Inr (b, H, fr)"
        "add_child t s (if b then Updated_F else No_update) (\<sigma>\<lparr>nodes := H, frontier := fr\<rparr>) = Inr \<sigma>'"
        by (auto simp: generate_def state_neq_iff split: sum.splits)
      with t ne Some regen show thesis by blast
    qed
  qed
qed


lemma map_state_children:
  "map state (H[t := (H ! t)\<lparr>children := cs\<rparr>]) = map state H"
proof (rule nth_equalityI)
  show "length (map state (H[t := (H ! t)\<lparr>children := cs\<rparr>])) = length (map state H)"
    by simp
next
  fix i
  assume "i < length (map state (H[t := (H ! t)\<lparr>children := cs\<rparr>]))"
  then have i: "i < length H" by simp
  then show "map state (H[t := (H ! t)\<lparr>children := cs\<rparr>]) ! i = map state H ! i"
    by (cases "t = i") simp_all
qed

lemma map_state_heap_le: "heap_le H H' \<Longrightarrow> map state H' = map state H"
  by (rule nth_equalityI) (simp_all add: heap_le_def)

lemma table_ok_alt:
  "table_ok \<sigma> \<longleftrightarrow>
     (\<forall>s p. generated \<sigma> s = Some p \<longrightarrow>
        p < length (map state (nodes \<sigma>)) \<and> map state (nodes \<sigma>) ! p = s) \<and>
     (\<forall>p < length (map state (nodes \<sigma>)). generated \<sigma> (map state (nodes \<sigma>) ! p) = Some p)"
  unfolding table_ok_def by (simp cong: conj_cong)

lemma table_ok_cong:
  assumes "table_ok \<sigma>" "map state (nodes \<sigma>') = map state (nodes \<sigma>)"
    "generated \<sigma>' = generated \<sigma>"
  shows "table_ok \<sigma>'"
  using assms(1) unfolding table_ok_alt assms(2,3) .

lemma table_ok_new:
  assumes "table_ok \<sigma>" "generated \<sigma> s = None"
    "map state (nodes \<sigma>') = map state (nodes \<sigma>) @ [s]"
    "generated \<sigma>' = (generated \<sigma>)(s \<mapsto> length (nodes \<sigma>))"
  shows "table_ok \<sigma>'"
proof -
  let ?xs = "map state (nodes \<sigma>)"
  have len: "length ?xs = length (nodes \<sigma>)" by simp
  have a: "p < length ?xs \<and> (?xs @ [s]) ! p = s'"
    if "generated \<sigma> s' = Some p" for s' p
  proof -
    from that assms(1) have "p < length ?xs" "?xs ! p = s'"
      unfolding table_ok_alt by blast+
    then show ?thesis by (simp only: nth_append if_True simp_thms)
  qed
  have b: "generated \<sigma> ((?xs @ [s]) ! p) = Some p \<and> (?xs @ [s]) ! p \<noteq> s"
    if "p < length ?xs" for p
  proof -
    from that assms(1) have "generated \<sigma> (?xs ! p) = Some p"
      unfolding table_ok_alt by blast
    moreover from that have "(?xs @ [s]) ! p = ?xs ! p"
      by (simp only: nth_append if_True)
    ultimately show ?thesis using assms(2) by auto
  qed
  show ?thesis
    unfolding table_ok_alt assms(3,4)
  proof (intro conjI allI impI)
    fix s' p
    assume g: "((generated \<sigma>)(s \<mapsto> length (nodes \<sigma>))) s' = Some p"
    show "p < length (?xs @ [s])"
      using g a[of s' p] by (cases "s' = s") auto
    show "(?xs @ [s]) ! p = s'"
    proof (cases "s' = s")
      case True
      with g have "p = length ?xs" by simp
      with True show ?thesis by (simp only: nth_append_length)
    next
      case False
      with g a[of s' p] show ?thesis by simp
    qed
  next
    fix p
    assume "p < length (?xs @ [s])"
    then consider "p < length ?xs" | "p = length ?xs"
      by fastforce
    then show "((generated \<sigma>)(s \<mapsto> length (nodes \<sigma>))) ((?xs @ [s]) ! p) = Some p"
    proof cases
      case 1
      with b[of p] show ?thesis by simp
    next
      case 2
      then have "(?xs @ [s]) ! p = s" by (simp only: nth_append_length)
      with 2 show ?thesis by simp
    qed
  qed
qed


lemma generate_table_ok:
  assumes "table_ok \<sigma>" "generate fuel t s \<sigma> = Inr \<sigma>'"
  shows "table_ok \<sigma>'"
  using assms(2)
proof (cases rule: generate_cases)
  case skip
  with assms show ?thesis by simp
next
  case (regen q b H fr)
  from updateCostCond_heap_le(1)[OF regen(4)] have "map state H = map state (nodes \<sigma>)"
    by (simp add: map_state_heap_le)
  with regen(5) have "map state (nodes \<sigma>') = map state (nodes \<sigma>)" "generated \<sigma>' = generated \<sigma>"
    by (auto elim!: add_child_Inr simp: map_state_children)
  with assms(1) show ?thesis by (rule table_ok_cong)
next
  case (new workNode)
  from new(5) have "map state (nodes \<sigma>') = map state (nodes \<sigma> @ [workNode])"
    "generated \<sigma>' = (generated \<sigma>)(s \<mapsto> length (nodes \<sigma>))"
    by (auto elim!: add_child_Inr simp: map_state_children)
  with new(4) have "map state (nodes \<sigma>') = map state (nodes \<sigma>) @ [s]"
    "generated \<sigma>' = (generated \<sigma>)(s \<mapsto> length (nodes \<sigma>))"
    by simp_all
  with assms(1) new(3) show ?thesis by (rule table_ok_new)
qed

lemma generate_allocates:
  assumes "generate fuel t s \<sigma> = Inr \<sigma>'"
  shows "length (nodes \<sigma>') =
           length (nodes \<sigma>) + (if generated \<sigma> s = None \<and> s \<noteq> state (nodes \<sigma> ! t) then 1 else 0)"
  using assms
proof (cases rule: generate_cases)
  case skip
  then show ?thesis by simp
next
  case (regen q b H fr)
  from updateCostCond_heap_le(1)[OF regen(4)] have "length H = length (nodes \<sigma>)"
    by (simp add: heap_le_def)
  with regen show ?thesis
    by (auto elim!: add_child_Inr)
next
  case (new workNode)
  then show ?thesis
    by (auto elim!: add_child_Inr)
qed

lemma generate_reported:
  assumes "dom (generated \<sigma>) = insert s0 (reported \<sigma>)" "generate fuel t s \<sigma> = Inr \<sigma>'"
  shows "dom (generated \<sigma>') = insert s0 (reported \<sigma>')"
  using assms(2)
proof (cases rule: generate_cases)
  case skip
  with assms show ?thesis by simp
next
  case (regen q b H fr)
  from regen(5) have "generated \<sigma>' = generated \<sigma>" "reported \<sigma>' = insert s (reported \<sigma>)"
    by (auto elim!: add_child_Inr simp: reported_def)
  with assms(1) regen(3) show ?thesis by auto
next
  case (new workNode)
  from new(5) have "generated \<sigma>' = (generated \<sigma>)(s \<mapsto> length (nodes \<sigma>))"
    "reported \<sigma>' = insert s (reported \<sigma>)"
    by (auto elim!: add_child_Inr simp: reported_def)
  with assms(1) show ?thesis by auto
qed

lemma expand_table_ok:
  "table_ok \<sigma> \<Longrightarrow> expand fuel t ss \<sigma> = Inr \<sigma>' \<Longrightarrow> table_ok \<sigma>'"
proof (induction ss arbitrary: \<sigma>)
  case Nil
  then show ?case by simp
next
  case (Cons s ss)
  show ?case
  proof (cases "winningNode \<sigma> = None")
    case True
    with Cons.prems(2) obtain \<sigma>1 where
      g: "generate fuel t s \<sigma> = Inr \<sigma>1" and e: "expand fuel t ss \<sigma>1 = Inr \<sigma>'"
      by (auto split: sum.splits)
    from generate_table_ok[OF Cons.prems(1) g] e show ?thesis
      by (rule Cons.IH)
  next
    case False
    with Cons.prems show ?thesis by simp
  qed
qed

lemma expand_reported:
  "dom (generated \<sigma>) = insert s0 (reported \<sigma>) \<Longrightarrow> expand fuel t ss \<sigma> = Inr \<sigma>' \<Longrightarrow>
   dom (generated \<sigma>') = insert s0 (reported \<sigma>')"
proof (induction ss arbitrary: \<sigma>)
  case Nil
  then show ?case by simp
next
  case (Cons s ss)
  show ?case
  proof (cases "winningNode \<sigma> = None")
    case True
    with Cons.prems(2) obtain \<sigma>1 where
      g: "generate fuel t s \<sigma> = Inr \<sigma>1" and e: "expand fuel t ss \<sigma>1 = Inr \<sigma>'"
      by (auto split: sum.splits)
    from generate_reported[OF Cons.prems(1) g] e show ?thesis
      by (rule Cons.IH)
  next
    case False
    with Cons.prems show ?thesis by simp
  qed
qed

lemma iteration_table_ok:
  assumes "table_ok \<sigma>" "iteration fuel e es \<sigma> = Inr \<sigma>'"
  shows "table_ok \<sigma>'"
proof -
  let ?\<sigma>1 = "\<sigma>\<lparr>frontier := es, printed := printed \<sigma> @ [Expand (state (nodes \<sigma> ! snd e))]\<rparr>"
  from assms(1) have "table_ok ?\<sigma>1"
    by (rule table_ok_cong) simp_all
  moreover from assms(2) have "expand fuel (snd e) (nextStates (state (nodes \<sigma> ! snd e))) ?\<sigma>1 = Inr \<sigma>'"
    by (simp add: iteration_def Let_def split: if_splits)
  ultimately show ?thesis by (rule expand_table_ok)
qed

lemma iteration_reported:
  assumes "dom (generated \<sigma>) = insert s0 (reported \<sigma>)" "iteration fuel e es \<sigma> = Inr \<sigma>'"
  shows "dom (generated \<sigma>') = insert s0 (reported \<sigma>')"
proof -
  let ?\<sigma>1 = "\<sigma>\<lparr>frontier := es, printed := printed \<sigma> @ [Expand (state (nodes \<sigma> ! snd e))]\<rparr>"
  from assms(1) have "dom (generated ?\<sigma>1) = insert s0 (reported ?\<sigma>1)"
    by (simp add: reported_def)
  moreover from assms(2) have "expand fuel (snd e) (nextStates (state (nodes \<sigma> ! snd e))) ?\<sigma>1 = Inr \<sigma>'"
    by (simp add: iteration_def Let_def split: if_splits)
  ultimately show ?thesis by (rule expand_reported)
qed

lemma search_loop_table_ok:
  "table_ok \<sigma> \<Longrightarrow> search_loop fuel n \<sigma> = Inr \<sigma>' \<Longrightarrow> table_ok \<sigma>'"
proof (induction n arbitrary: \<sigma>)
  case 0
  then show ?case by (auto simp: search_loop_0 split: if_splits list.splits)
next
  case (Suc n)
  show ?case
  proof (cases "winningNode \<sigma> = None \<and> frontier \<sigma> \<noteq> []")
    case True
    then obtain e es where f: "frontier \<sigma> = e # es" by (cases "frontier \<sigma>") auto
    with True Suc.prems(2) obtain \<sigma>1 where
      i: "iteration fuel e es \<sigma> = Inr \<sigma>1" and l: "search_loop fuel n \<sigma>1 = Inr \<sigma>'"
      by (auto simp: search_loop_Suc split: sum.splits)
    from iteration_table_ok[OF Suc.prems(1) i] l show ?thesis
      by (rule Suc.IH)
  next
    case False
    with Suc.prems show ?thesis by (auto simp: search_loop_Suc split: if_splits list.splits)
  qed
qed

lemma search_loop_reported:
  "dom (generated \<sigma>) = insert s0 (reported \<sigma>) \<Longrightarrow> search_loop fuel n \<sigma> = Inr \<sigma>' \<Longrightarrow>
   dom (generated \<sigma>') = insert s0 (reported \<sigma>')"
proof (induction n arbitrary: \<sigma>)
  case 0
  then show ?case by (auto simp: search_loop_0 split: if_splits list.splits)
next
  case (Suc n)
  show ?case
  proof (cases "winningNode \<sigma> = None \<and> frontier \<sigma> \<noteq> []")
    case True
    then obtain e es where f: "frontier \<sigma> = e # es" by (cases "frontier \<sigma>") auto
    with True Suc.prems(2) obtain \<sigma>1 where
      i: "iteration fuel e es \<sigma> = Inr \<sigma>1" and l: "search_loop fuel n \<sigma>1 = Inr \<sigma>'"
      by (auto simp: search_loop_Suc split: sum.splits)
    from iteration_reported[OF Suc.prems(1) i] l show ?thesis
      by (rule Suc.IH)
  next
    case False
    with Suc.prems show ?thesis by (auto simp: search_loop_Suc split: if_splits list.splits)
  qed
qed

lemma init_table_ok: "init = Inr \<sigma> \<Longrightarrow> table_ok \<sigma> \<and> dom (generated \<sigma>) = insert FWDCstate0 (reported \<sigma>)"
  by (auto simp: init_def newPSNode_def generated_insert_def table_ok_def reported_def split: if_splits)


lemma generate_fuel_mono:
  assumes "generate f t s \<sigma> = Inr \<sigma>'"
  shows "generate (f + k) t s \<sigma> = Inr \<sigma>'"
  using assms
proof (cases rule: generate_cases)
  case skip
  then show ?thesis by (simp add: generate_def state_neq_iff)
next
  case (regen q b H fr)
  from updateCostCond_fuel_mono(1)[OF regen(4), of k] regen show ?thesis
    by (simp add: generate_def state_neq_iff)
next
  case (new workNode)
  with assms show ?thesis
    by (simp add: generate_def state_neq_iff)
qed

lemma expand_fuel_mono:
  "expand f t ss \<sigma> = Inr \<sigma>' \<Longrightarrow> expand (f + k) t ss \<sigma> = Inr \<sigma>'"
proof (induction ss arbitrary: \<sigma>)
  case Nil
  then show ?case by simp
next
  case (Cons s ss)
  show ?case
  proof (cases "winningNode \<sigma> = None")
    case True
    with Cons.prems obtain \<sigma>1 where
      g: "generate f t s \<sigma> = Inr \<sigma>1" and e: "expand f t ss \<sigma>1 = Inr \<sigma>'"
      by (auto split: sum.splits)
    from generate_fuel_mono[OF g, of k] Cons.IH[OF e] True show ?thesis by simp
  next
    case False
    with Cons.prems show ?thesis by auto
  qed
qed

lemma iteration_fuel_mono:
  "iteration f e es \<sigma> = Inr \<sigma>' \<Longrightarrow> iteration (f + k) e es \<sigma> = Inr \<sigma>'"
  by (auto simp: iteration_def Let_def expand_fuel_mono split: if_splits)

lemma search_loop_fuel_mono:
  "search_loop f n \<sigma> = Inr \<sigma>' \<Longrightarrow> search_loop (f + k) (n + j) \<sigma> = Inr \<sigma>'"
proof (induction n arbitrary: \<sigma>)
  case 0
  then have "\<sigma>' = \<sigma>" "winningNode \<sigma> \<noteq> None \<or> frontier \<sigma> = []"
    by (auto simp: search_loop_0 split: if_splits list.splits)
  then show ?case by (simp add: search_loop_stop)
next
  case (Suc n)
  show ?case
  proof (cases "winningNode \<sigma> = None \<and> frontier \<sigma> \<noteq> []")
    case True
    then obtain e es where f: "frontier \<sigma> = e # es" by (cases "frontier \<sigma>") auto
    with True Suc.prems obtain \<sigma>1 where
      i: "iteration f e es \<sigma> = Inr \<sigma>1" and l: "search_loop f n \<sigma>1 = Inr \<sigma>'"
      by (auto simp: search_loop_Suc split: sum.splits)
    from iteration_fuel_mono[OF i, of k] Suc.IH[OF l] True f show ?thesis
      by (simp add: search_loop_Suc)
  next
    case False
    with Suc.prems have "\<sigma>' = \<sigma>"
      by (auto simp: search_loop_Suc split: if_splits list.splits)
    with False show ?thesis by (auto simp: search_loop_stop)
  qed
qed

lemma parent_chain_fuel_mono:
  "parent_chain n H w = Inr ws \<Longrightarrow> parent_chain (n + k) H w = Inr ws"
proof (induction n H w arbitrary: ws rule: parent_chain.induct)
  case (1 n H)
  then show ?case by simp
next
  case (2 H w)
  then show ?case by simp
next
  case (3 n H w)
  from "3.prems" obtain ws1 where
    c: "parent_chain n H (parent (H ! w)) = Inr ws1" and w: "w < length H" "ws = w # ws1"
    by (auto split: if_splits sum.splits)
  from "3.IH"[OF w(1) c] w show ?case by simp
qed

lemma init_Inr: "init = Inr start_search"
  by (simp add: init_def newPSNode_def generated_insert_def h_def FWDCstate0_def start_search_def)

lemma main_unfold:
  "main fuel =
     (case search_loop fuel fuel start_search of
        Inl e \<Rightarrow> Inl e
      | Inr \<sigma> \<Rightarrow>
          (case winningNode \<sigma> of
             None \<Rightarrow> Inr (\<sigma>, [''No path to goal!''])
           | Some w \<Rightarrow>
               (case parent_chain fuel (nodes \<sigma>) (Some w) of
                  Inl e \<Rightarrow> Inl e
                | Inr ws \<Rightarrow> Inr (\<sigma>, [''Winning state reached.'', outpath (nodes \<sigma>) ws []]))))"
  by (simp add: main_def init_Inr)

lemma main_fuel_mono:
  assumes "main f = Inr r"
  shows "main (f + k) = Inr r"
proof -
  from assms obtain \<sigma> where l: "search_loop f f start_search = Inr \<sigma>"
    by (cases "search_loop f f start_search") (auto simp: main_unfold)
  from search_loop_fuel_mono[OF l, of k k]
  have l': "search_loop (f + k) (f + k) start_search = Inr \<sigma>" .
  show ?thesis
  proof (cases "winningNode \<sigma>")
    case None
    with assms l l' show ?thesis by (simp add: main_unfold)
  next
    case (Some w)
    with assms l obtain ws where c: "parent_chain f (nodes \<sigma>) (Some w) = Inr ws"
      by (cases "parent_chain f (nodes \<sigma>) (Some w)") (auto simp: main_unfold)
    from parent_chain_fuel_mono[OF c, of k] c assms l l' Some show ?thesis
      by (simp add: main_unfold)
  qed
qed

lemma main_8: "isl (main 8)"
  by code_simp

lemma main_9_lines:
  "\<not> isl (main 9) \<and> snd (projr (main 9)) =
     [''Winning state reached.'',
      ''[||FWDC] -> [FD||WC] -> [D||FWC] -> [FWD||C] -> [W||FDC] -> [FWC||D] -> [WC||FD] -> [FWDC||]'']"
  by code_simp

lemma main_9:
  "main 9 = Inr (final_search,
     [''Winning state reached.'',
      ''[||FWDC] -> [FD||WC] -> [D||FWC] -> [FWD||C] -> [W||FDC] -> [FWC||D] -> [WC||FD] -> [FWDC||]''])"
proof -
  from main_9_lines obtain r where r: "main 9 = Inr r"
    by (cases "main 9") auto
  with main_9_lines show ?thesis
    by (cases r) (simp add: final_search_def)
qed

lemma main_iff:
  "main fuel = Inr r \<longleftrightarrow> 9 \<le> fuel \<and> main 9 = Inr r"
proof
  assume a: "main fuel = Inr r"
  have "9 \<le> fuel"
  proof (rule ccontr)
    assume "\<not> 9 \<le> fuel"
    then have "8 = fuel + (8 - fuel)" by simp
    with main_fuel_mono[OF a, of "8 - fuel"] have "main 8 = Inr r" by simp
    with main_8 show False by simp
  qed
  moreover have "main 9 = Inr r"
  proof -
    from main_9 obtain r9 where r9: "main 9 = Inr r9" by blast
    from \<open>9 \<le> fuel\<close> have "fuel = 9 + (fuel - 9)" by simp
    with main_fuel_mono[OF r9, of "fuel - 9"] have "main fuel = Inr r9" by simp
    with a r9 show ?thesis by simp
  qed
  ultimately show "9 \<le> fuel \<and> main 9 = Inr r" ..
next
  assume "9 \<le> fuel \<and> main 9 = Inr r"
  then have "fuel = 9 + (fuel - 9)" "main 9 = Inr r" by simp_all
  with main_fuel_mono[of 9 r "fuel - 9"] show "main fuel = Inr r" by simp
qed

lemma final_nodes:
  "nodes final_search =
     [\<lparr>state = FWDCstate4 False False False False, parent = None, cost2reach = 0, projectedCost = 3, children = [1]\<rparr>,
      \<lparr>state = FWDCstate4 True False True False, parent = Some 0, cost2reach = 1, projectedCost = 2, children = [0, 2]\<rparr>,
      \<lparr>state = FWDCstate4 False False True False, parent = Some 1, cost2reach = 2, projectedCost = 2, children = [3, 4, 1]\<rparr>,
      \<lparr>state = FWDCstate4 True True True False, parent = Some 2, cost2reach = 3, projectedCost = 1, children = [2, 5]\<rparr>,
      \<lparr>state = FWDCstate4 True False True True, parent = Some 2, cost2reach = 3, projectedCost = 1, children = [6, 2]\<rparr>,
      \<lparr>state = FWDCstate4 False True False False, parent = Some 3, cost2reach = 4, projectedCost = 2, children = [3, 7]\<rparr>,
      \<lparr>state = FWDCstate4 False False False True, parent = Some 4, cost2reach = 4, projectedCost = 2, children = [7, 4]\<rparr>,
      \<lparr>state = FWDCstate4 True True False True, parent = Some 5, cost2reach = 5, projectedCost = 1, children = [6, 5, 8]\<rparr>,
      \<lparr>state = FWDCstate4 False True False True, parent = Some 7, cost2reach = 6, projectedCost = 1, children = [9]\<rparr>,
      \<lparr>state = FWDCstate4 True True True True, parent = Some 8, cost2reach = 7, projectedCost = 0, children = []\<rparr>]"
  unfolding final_search_def by code_simp

lemma final_rest:
  "winningNode final_search = Some 9 \<and> frontier final_search = [(7, 9)]"
  unfolding final_search_def by code_simp


lemma search_grows_refl: "search_grows \<sigma> \<sigma>"
  by (simp add: search_grows_def)

lemma search_grows_trans:
  assumes "search_grows \<sigma>1 \<sigma>2" "search_grows \<sigma>2 \<sigma>3"
  shows "search_grows \<sigma>1 \<sigma>3"
proof -
  from assms obtain es1 es2 where "printed \<sigma>2 = printed \<sigma>1 @ es1" "printed \<sigma>3 = printed \<sigma>2 @ es2"
    unfolding search_grows_def by blast
  then have p: "\<exists>es. printed \<sigma>3 = printed \<sigma>1 @ es" by simp
  from assms have l: "length (nodes \<sigma>1) \<le> length (nodes \<sigma>2)" "length (nodes \<sigma>2) \<le> length (nodes \<sigma>3)"
    unfolding search_grows_def by simp_all
  have n: "state (nodes \<sigma>3 ! i) = state (nodes \<sigma>1 ! i) \<and>
      set (children (nodes \<sigma>1 ! i)) \<subseteq> set (children (nodes \<sigma>3 ! i))"
    if "i < length (nodes \<sigma>1)" for i
  proof -
    from that l have i2: "i < length (nodes \<sigma>2)" by simp
    from that assms(1) have a: "state (nodes \<sigma>2 ! i) = state (nodes \<sigma>1 ! i)"
      "set (children (nodes \<sigma>1 ! i)) \<subseteq> set (children (nodes \<sigma>2 ! i))"
      unfolding search_grows_def by simp_all
    from i2 assms(2) have b: "state (nodes \<sigma>3 ! i) = state (nodes \<sigma>2 ! i)"
      "set (children (nodes \<sigma>2 ! i)) \<subseteq> set (children (nodes \<sigma>3 ! i))"
      unfolding search_grows_def by simp_all
    from a b show ?thesis by auto
  qed
  have g: "generated \<sigma>3 s = Some q" if "generated \<sigma>1 s = Some q" for s q
  proof -
    from that assms(1) have "generated \<sigma>2 s = Some q"
      unfolding search_grows_def by simp
    with assms(2) show ?thesis
      unfolding search_grows_def by simp
  qed
  from p l n g show ?thesis
    unfolding search_grows_def by simp
qed

lemma search_grows_add_child:
  assumes "add_child t s r \<sigma> = Inr \<sigma>'"
  shows "search_grows \<sigma> \<sigma>'"
  using assms
proof (rule add_child_Inr)
  fix q
  assume q: "generated \<sigma> s = Some q" "t < length (nodes \<sigma>)" "q < length (nodes \<sigma>)"
    and e: "\<sigma>' = \<sigma>\<lparr>nodes := (nodes \<sigma>)[t := (nodes \<sigma> ! t)\<lparr>children := children (nodes \<sigma> ! t) @ [q]\<rparr>],
              printed := printed \<sigma> @ [Generated s r (cost2reach (nodes \<sigma> ! q)) (projectedCost (nodes \<sigma> ! q))]\<rparr>"
  have "state (nodes \<sigma>' ! i) = state (nodes \<sigma> ! i) \<and>
      set (children (nodes \<sigma> ! i)) \<subseteq> set (children (nodes \<sigma>' ! i))"
    if "i < length (nodes \<sigma>)" for i
    using that q unfolding e by (cases "i = t") auto
  then show ?thesis
    unfolding search_grows_def by (simp add: e)
qed

lemma search_grows_heap_le:
  "heap_le (nodes \<sigma>) H \<Longrightarrow> search_grows \<sigma> (\<sigma>\<lparr>nodes := H, frontier := fr\<rparr>)"
  by (simp add: search_grows_def heap_le_def)

lemma search_grows_new:
  "generated \<sigma> s = None \<Longrightarrow>
   search_grows \<sigma> (\<sigma>\<lparr>nodes := nodes \<sigma> @ [nd], generated := (generated \<sigma>)(s \<mapsto> q),
                    frontier := fr, winningNode := w\<rparr>)"
  by (auto simp: search_grows_def nth_append)

lemma generate_ext:
  assumes "generate fuel t s \<sigma> = Inr \<sigma>'"
  shows "search_grows \<sigma> \<sigma>'"
  using assms
proof (cases rule: generate_cases)
  case skip
  then show ?thesis by (simp add: search_grows_refl)
next
  case (regen q b H fr)
  from updateCostCond_heap_le(1)[OF regen(4)] have "heap_le (nodes \<sigma>) H" by simp
  from search_grows_heap_le[OF this] search_grows_add_child[OF regen(5)] show ?thesis
    by (rule search_grows_trans)
next
  case (new workNode)
  from search_grows_new[OF new(3)] search_grows_add_child[OF new(5)] show ?thesis
    by (rule search_grows_trans)
qed

lemma generate_winning:
  assumes "generate fuel t s \<sigma> = Inr \<sigma>'" "winningNode \<sigma>' = None"
  shows "winningNode \<sigma> = None"
  using assms(1)
proof (cases rule: generate_cases)
  case skip
  with assms show ?thesis by simp
next
  case (regen q b H fr)
  from regen(5) assms(2) show ?thesis
    by (auto elim!: add_child_Inr)
next
  case (new workNode)
  from new(5) assms(2) show ?thesis
    by (auto elim!: add_child_Inr split: if_splits)
qed

lemma expand_ext:
  "expand fuel t ss \<sigma> = Inr \<sigma>' \<Longrightarrow> search_grows \<sigma> \<sigma>'"
proof (induction ss arbitrary: \<sigma>)
  case Nil
  then show ?case by (simp add: search_grows_refl)
next
  case (Cons s ss)
  show ?case
  proof (cases "winningNode \<sigma> = None")
    case True
    with Cons.prems obtain \<sigma>1 where
      g: "generate fuel t s \<sigma> = Inr \<sigma>1" and e: "expand fuel t ss \<sigma>1 = Inr \<sigma>'"
      by (auto split: sum.splits)
    from generate_ext[OF g] Cons.IH[OF e] show ?thesis
      by (rule search_grows_trans)
  next
    case False
    with Cons.prems show ?thesis by (auto simp: search_grows_refl)
  qed
qed


lemma generate_regenerates:
  assumes "generate fuel t s \<sigma> = Inr \<sigma>'" "generated \<sigma> s = Some q" "s \<noteq> state (nodes \<sigma> ! t)"
  shows "\<exists>b H fr.
           updateCostCond fuel (cost2reach (nodes \<sigma> ! t) + 1) (Some t) q (nodes \<sigma>, frontier \<sigma>) =
             Inr (b, H, fr) \<and>
           nodes \<sigma>' = H[t := (H ! t)\<lparr>children := children (H ! t) @ [q]\<rparr>] \<and>
           frontier \<sigma>' = fr \<and>
           printed \<sigma>' = printed \<sigma> @
             [Generated s (if b then Updated_F else No_update) (cost2reach (H ! q)) (projectedCost (H ! q))]"
  using assms(1)
proof (cases rule: generate_cases)
  case skip
  with assms show ?thesis by simp
next
  case (regen q' b H fr)
  with assms(2) have q: "q' = q" by simp
  from regen(5) assms(2) have "nodes \<sigma>' = H[t := (H ! t)\<lparr>children := children (H ! t) @ [q]\<rparr>]"
    "frontier \<sigma>' = fr"
    "printed \<sigma>' = printed \<sigma> @
       [Generated s (if b then Updated_F else No_update) (cost2reach (H ! q)) (projectedCost (H ! q))]"
    unfolding q by (auto elim!: add_child_Inr)
  with regen(4) show ?thesis unfolding q by blast
next
  case (new workNode)
  with assms show ?thesis by simp
qed

lemma expand_reaches_state:
  assumes "expand fuel t ss \<sigma> = Inr \<sigma>'" "winningNode \<sigma>' = None" "sp \<in> set ss"
    "generated \<sigma> sp = Some p" "sp \<noteq> state (nodes \<sigma> ! t)" "t < length (nodes \<sigma>)"
  shows "p \<in> set (children (nodes \<sigma>' ! t)) \<and>
         (\<exists>es r g hh. printed \<sigma>' = printed \<sigma> @ es \<and> r \<noteq> New_node \<and> Generated sp r g hh \<in> set es)"
  using assms
proof (induction ss arbitrary: \<sigma>)
  case Nil
  then show ?case by simp
next
  case (Cons s ss)
  have w: "winningNode \<sigma> = None"
  proof (rule ccontr)
    assume "winningNode \<sigma> \<noteq> None"
    with Cons.prems(1) have "\<sigma>' = \<sigma>" by auto
    with Cons.prems(2) \<open>winningNode \<sigma> \<noteq> None\<close> show False by simp
  qed
  with Cons.prems(1) obtain \<sigma>1 where
    g: "generate fuel t s \<sigma> = Inr \<sigma>1" and e: "expand fuel t ss \<sigma>1 = Inr \<sigma>'"
    by (auto split: sum.splits)
  from generate_ext[OF g] have g1: "search_grows \<sigma> \<sigma>1" .
  from expand_ext[OF e] have g2: "search_grows \<sigma>1 \<sigma>'" .
  from g1 Cons.prems(6) have t1: "t < length (nodes \<sigma>1)" "state (nodes \<sigma>1 ! t) = state (nodes \<sigma> ! t)"
    unfolding search_grows_def by simp_all
  show ?case
  proof (cases "s = sp")
    case True
    from generate_regenerates[OF g[unfolded True] Cons.prems(4,5)]
    obtain b H fr where
      u: "updateCostCond fuel (cost2reach (nodes \<sigma> ! t) + 1) (Some t) p (nodes \<sigma>, frontier \<sigma>) = Inr (b, H, fr)" and
      n: "nodes \<sigma>1 = H[t := (H ! t)\<lparr>children := children (H ! t) @ [p]\<rparr>]" and
      pr: "printed \<sigma>1 = printed \<sigma> @
        [Generated sp (if b then Updated_F else No_update) (cost2reach (H ! p)) (projectedCost (H ! p))]"
      by blast
    from updateCostCond_heap_le(1)[OF u] Cons.prems(6) have "t < length H"
      by (simp add: heap_le_def)
    with n have "p \<in> set (children (nodes \<sigma>1 ! t))" by simp
    with g2 t1(1) have c: "p \<in> set (children (nodes \<sigma>' ! t))"
      unfolding search_grows_def by blast
    from g2 obtain es where "printed \<sigma>' = printed \<sigma>1 @ es"
      unfolding search_grows_def by blast
    with pr have "printed \<sigma>' = printed \<sigma> @
        (Generated sp (if b then Updated_F else No_update) (cost2reach (H ! p)) (projectedCost (H ! p)) # es)"
      by simp
    moreover have "(if b then Updated_F else No_update) \<noteq> New_node" by simp
    moreover have "Generated sp (if b then Updated_F else No_update) (cost2reach (H ! p)) (projectedCost (H ! p))
        \<in> set (Generated sp (if b then Updated_F else No_update) (cost2reach (H ! p)) (projectedCost (H ! p)) # es)"
      by simp
    ultimately show ?thesis using c by blast
  next
    case False
    with Cons.prems(3) have m: "sp \<in> set ss" by simp
    from g1 Cons.prems(4) have g': "generated \<sigma>1 sp = Some p"
      unfolding search_grows_def by simp
    from Cons.prems(5) t1 have ne: "sp \<noteq> state (nodes \<sigma>1 ! t)" by simp
    from Cons.IH[OF e Cons.prems(2) m g' ne t1(1)]
    obtain es r g hh where c: "p \<in> set (children (nodes \<sigma>' ! t))" and
      pr: "printed \<sigma>' = printed \<sigma>1 @ es" "r \<noteq> New_node" "Generated sp r g hh \<in> set es"
      by blast
    from g1 obtain es1 where "printed \<sigma>1 = printed \<sigma> @ es1"
      unfolding search_grows_def by blast
    with pr have "printed \<sigma>' = printed \<sigma> @ (es1 @ es)" "Generated sp r g hh \<in> set (es1 @ es)"
      by simp_all
    with c pr(2) show ?thesis by blast
  qed
qed


section \<open>The run of the program\<close>

lemma final_printed:
  "printed final_search =
     [Expand (FWDCstate4 False False False False),
      Generated (FWDCstate4 True False True False) New_node 1 2,
      Expand (FWDCstate4 True False True False),
      Generated (FWDCstate4 False False False False) No_update 0 3,
      Generated (FWDCstate4 False False True False) New_node 2 2,
      Expand (FWDCstate4 False False True False),
      Generated (FWDCstate4 True True True False) New_node 3 1,
      Generated (FWDCstate4 True False True True) New_node 3 1,
      Generated (FWDCstate4 True False True False) No_update 1 2,
      Expand (FWDCstate4 True True True False),
      Generated (FWDCstate4 False False True False) No_update 2 2,
      Generated (FWDCstate4 False True False False) New_node 4 2,
      Expand (FWDCstate4 True False True True),
      Generated (FWDCstate4 False False False True) New_node 4 2,
      Generated (FWDCstate4 False False True False) No_update 2 2,
      Expand (FWDCstate4 False True False False),
      Generated (FWDCstate4 True True True False) No_update 3 1,
      Generated (FWDCstate4 True True False True) New_node 5 1,
      Expand (FWDCstate4 False False False True),
      Generated (FWDCstate4 True True False True) No_update 5 1,
      Generated (FWDCstate4 True False True True) No_update 3 1,
      Expand (FWDCstate4 True True False True),
      Generated (FWDCstate4 False False False True) No_update 4 2,
      Generated (FWDCstate4 False True False False) No_update 4 2,
      Generated (FWDCstate4 False True False True) New_node 6 1,
      Expand (FWDCstate4 False True False True),
      Generated (FWDCstate4 True True True True) New_node 7 0]"
  unfolding final_search_def by code_simp

lemma final_chain:
  "parent_chain 9 (nodes final_search) (Some 9) = Inr [9, 8, 7, 5, 3, 2, 1, 0]"
  unfolding final_search_def by code_simp

lemma final_chain_legal:
  "legal_chain (nodes final_search) [9, 8, 7, 5, 3, 2, 1, 0]"
  unfolding final_search_def by code_simp

lemma not_reaches_0: "\<not> reaches 0 FWDCstate0 (FWDCstate4 True True True True)" by code_simp
lemma not_reaches_1: "\<not> reaches 1 FWDCstate0 (FWDCstate4 True True True True)" by code_simp
lemma not_reaches_2: "\<not> reaches 2 FWDCstate0 (FWDCstate4 True True True True)" by code_simp
lemma not_reaches_3: "\<not> reaches 3 FWDCstate0 (FWDCstate4 True True True True)" by code_simp
lemma not_reaches_4: "\<not> reaches 4 FWDCstate0 (FWDCstate4 True True True True)" by code_simp
lemma not_reaches_5: "\<not> reaches 5 FWDCstate0 (FWDCstate4 True True True True)" by code_simp
lemma not_reaches_6: "\<not> reaches 6 FWDCstate0 (FWDCstate4 True True True True)" by code_simp

lemma not_reaches_lt_7:
  assumes "n < 7"
  shows "\<not> reaches n FWDCstate0 (FWDCstate4 True True True True)"
proof -
  from assms consider "n = 0" | "n = 1" | "n = 2" | "n = 3" | "n = 4" | "n = 5" | "n = 6"
    by linarith
  then show ?thesis
    using not_reaches_0 not_reaches_1 not_reaches_2 not_reaches_3 not_reaches_4 not_reaches_5
      not_reaches_6
    by cases simp_all
qed

section \<open>The claims about the search\<close>


text \<open>
  C1. Run from the start state, with the farmer, the wolf, the duck and the corn on the
  right bank, the program ends with a winning node: its state has all four on the left
  bank and its \<open>cost2reach\<close> is 7. The path printed has 7 moves, the chain of parents
  it is read from has 8 nodes joined by legal moves, a sequence of 7 legal moves from the
  start to the goal exists, and no shorter one does. Any fuel from 9 on gives this run.
\<close>

theorem main_solves:
  assumes "9 \<le> fuel"
  shows "\<exists>\<sigma> ls w.
           main fuel = Inr (\<sigma>, ls) \<and> winningNode \<sigma> = Some w \<and> w < length (nodes \<sigma>) \<and>
           state (nodes \<sigma> ! w) = FWDCstate4 True True True True \<and>
           cost2reach (nodes \<sigma> ! w) = 7 \<and>
           ls = [''Winning state reached.'',
                 ''[||FWDC] -> [FD||WC] -> [D||FWC] -> [FWD||C] -> [W||FDC] -> [FWC||D] -> [WC||FD] -> [FWDC||]''] \<and>
           (\<exists>ws. parent_chain fuel (nodes \<sigma>) (Some w) = Inr ws \<and> length ws = 8 \<and>
              legal_chain (nodes \<sigma>) ws) \<and>
           reaches 7 FWDCstate0 (FWDCstate4 True True True True) \<and>
           (\<forall>n. reaches n FWDCstate0 (FWDCstate4 True True True True) \<longrightarrow> 7 \<le> n)"
proof -
  from assms main_9 have "main fuel = Inr (final_search,
     [''Winning state reached.'',
      ''[||FWDC] -> [FD||WC] -> [D||FWC] -> [FWD||C] -> [W||FDC] -> [FWC||D] -> [WC||FD] -> [FWDC||]''])"
    using main_iff by blast
  moreover have "winningNode final_search = Some 9" "9 < length (nodes final_search)"
    "state (nodes final_search ! 9) = FWDCstate4 True True True True"
    "cost2reach (nodes final_search ! 9) = 7"
    by (simp_all add: final_rest final_nodes)
  moreover have "\<exists>ws. parent_chain fuel (nodes final_search) (Some 9) = Inr ws \<and> length ws = 8 \<and>
      legal_chain (nodes final_search) ws"
  proof -
    from assms have "fuel = 9 + (fuel - 9)" by simp
    with parent_chain_fuel_mono[OF final_chain, of "fuel - 9"]
    have "parent_chain fuel (nodes final_search) (Some 9) = Inr [9, 8, 7, 5, 3, 2, 1, 0]"
      by simp
    with final_chain_legal show ?thesis by simp
  qed
  moreover have "\<forall>n. reaches n FWDCstate0 (FWDCstate4 True True True True) \<longrightarrow> 7 \<le> n"
    using not_reaches_lt_7 by (meson not_le)
  ultimately show ?thesis
    using reaches_7 by blast
qed

text \<open>
  The run with fuel 9.
\<close>

theorem main_solves_witness:
  "(9::nat) \<le> 9 \<and> main 9 = Inr (final_search,
     [''Winning state reached.'',
      ''[||FWDC] -> [FD||WC] -> [D||FWC] -> [FWD||C] -> [W||FDC] -> [FWC||D] -> [WC||FD] -> [FWDC||]'']) \<and>
   winningNode final_search = Some 9 \<and>
   state (nodes final_search ! 9) = FWDCstate4 True True True True \<and>
   cost2reach (nodes final_search ! 9) = 7"
proof -
  from main_solves[of 9] obtain \<sigma> ls w where
    m: "main 9 = Inr (\<sigma>, ls)" and
    r: "winningNode \<sigma> = Some w" "state (nodes \<sigma> ! w) = FWDCstate4 True True True True"
      "cost2reach (nodes \<sigma> ! w) = 7"
    by auto
  from m main_9 have "\<sigma> = final_search" by simp
  with r final_rest have "w = 9" by simp
  with r \<open>\<sigma> = final_search\<close> main_9 show ?thesis by simp
qed

text \<open>
  C2. Every frontier entry is meant to be keyed by \<open>cost2reach + projectedCost\<close> of its
  node. The program's first entry is not: the start node goes on the frontier under the
  key 1, while its \<open>cost2reach\<close> is 0 and its heuristic value is 3.
\<close>

theorem start_node_keyed_at_1:
  "init = Inr start_search \<and> frontier start_search = [(1, 0)] \<and>
   cost2reach (nodes start_search ! 0) = 0 \<and> projectedCost (nodes start_search ! 0) = 3 \<and>
   h FWDCstate0 = 3"
  by (simp add: init_Inr) (simp add: start_search_def h_def FWDCstate0_def)

text \<open>
  The same invariant breaks when a node on the frontier is relaxed: \<open>updateCostCond\<close>
  looks for the node among the entries keyed by its old \<open>cost2reach\<close>, not by its old
  \<open>cost2reach + projectedCost\<close>, so a node with a positive heuristic value is not found
  and keeps its old key. Here node 1 drops from cost 3 to cost 1 and stays under key 5.
\<close>

lemma relaxation_misses_frontier_entry:
  "updateCostCond 2 1 (Some 0) 1
     ([\<lparr>state = FWDCstate0, parent = None, cost2reach = 0, projectedCost = 3, children = [1]\<rparr>,
       \<lparr>state = FWDCstate4 True False True False, parent = Some 0, cost2reach = 3,
         projectedCost = 2, children = []\<rparr>], [(5, 1)]) =
   Inr (True,
     [\<lparr>state = FWDCstate0, parent = None, cost2reach = 0, projectedCost = 3, children = [1]\<rparr>,
      \<lparr>state = FWDCstate4 True False True False, parent = Some 0, cost2reach = 1,
        projectedCost = 2, children = []\<rparr>], [(5, 1)])"
  by code_simp

text \<open>
  C4. When the program ends with a winning node, the chain of parents from that node has
  \<open>cost2reach + 1\<close> nodes, so it takes \<open>cost2reach\<close> steps; it ends at the start node,
  which has no parent; and each node's state is a successor of its parent's state.
\<close>

theorem winning_path_legal:
  assumes "main fuel = Inr (\<sigma>, ls)" and "winningNode \<sigma> = Some w"
  shows "\<exists>ws. parent_chain fuel (nodes \<sigma>) (Some w) = Inr ws \<and> ws \<noteq> [] \<and> hd ws = w \<and>
           int (length ws) = cost2reach (nodes \<sigma> ! w) + 1 \<and>
           last ws = 0 \<and> parent (nodes \<sigma> ! last ws) = None \<and>
           state (nodes \<sigma> ! last ws) = FWDCstate0 \<and>
           legal_chain (nodes \<sigma>) ws"
proof -
  from assms(1) main_iff have f: "9 \<le> fuel" and "main 9 = Inr (\<sigma>, ls)"
    by blast+
  with main_9 have s: "\<sigma> = final_search" by simp
  with assms(2) final_rest have w: "w = 9" by simp
  from f have "fuel = 9 + (fuel - 9)" by simp
  with parent_chain_fuel_mono[OF final_chain, of "fuel - 9"]
  have "parent_chain fuel (nodes \<sigma>) (Some w) = Inr [9, 8, 7, 5, 3, 2, 1, 0]"
    unfolding s w by simp
  moreover have "int (length [9::nat, 8, 7, 5, 3, 2, 1, 0]) = cost2reach (nodes \<sigma> ! w) + 1"
    "parent (nodes \<sigma> ! last [9::nat, 8, 7, 5, 3, 2, 1, 0]) = None"
    "state (nodes \<sigma> ! last [9::nat, 8, 7, 5, 3, 2, 1, 0]) = FWDCstate0"
    unfolding s w by (simp_all add: final_nodes FWDCstate0_def FWDCstate4_def)
  moreover have "legal_chain (nodes \<sigma>) [9, 8, 7, 5, 3, 2, 1, 0]"
    unfolding s by (rule final_chain_legal)
  ultimately show ?thesis
    unfolding w by (intro exI[of _ "[9, 8, 7, 5, 3, 2, 1, 0]"]) simp
qed

text \<open>
  The chain of the run with fuel 9.
\<close>

theorem winning_path_legal_witness:
  "main 9 = Inr (final_search,
     [''Winning state reached.'',
      ''[||FWDC] -> [FD||WC] -> [D||FWC] -> [FWD||C] -> [W||FDC] -> [FWC||D] -> [WC||FD] -> [FWDC||]'']) \<and>
   winningNode final_search = Some 9 \<and>
   parent_chain 9 (nodes final_search) (Some 9) = Inr [9, 8, 7, 5, 3, 2, 1, 0] \<and>
   cost2reach (nodes final_search ! 9) = 7 \<and>
   legal_chain (nodes final_search) [9, 8, 7, 5, 3, 2, 1, 0]"
proof -
  have w: "winningNode final_search = Some 9"
    by (simp add: final_rest)
  from winning_path_legal[OF main_9 w] obtain ws where
    c: "parent_chain 9 (nodes final_search) (Some 9) = Inr ws" and
    l: "int (length ws) = cost2reach (nodes final_search ! 9) + 1" "legal_chain (nodes final_search) ws"
    by blast
  from c final_chain have "ws = [9, 8, 7, 5, 3, 2, 1, 0]" by simp
  with c l main_9 w show ?thesis by simp
qed

lemma table_ok_nth:
  "table_ok \<sigma> \<Longrightarrow> p < length (nodes \<sigma>) \<Longrightarrow> generated \<sigma> (state (nodes \<sigma> ! p)) = Some p"
  unfolding table_ok_def by (elim conjE allE[of _ p] impE) assumption+

lemma table_ok_lookup:
  "table_ok \<sigma> \<Longrightarrow> generated \<sigma> s = Some p \<Longrightarrow> p < length (nodes \<sigma>) \<and> state (nodes \<sigma> ! p) = s"
  unfolding table_ok_def by blast

lemma table_ok_distinct:
  assumes "table_ok \<sigma>"
  shows "distinct (map state (nodes \<sigma>))"
  unfolding distinct_conv_nth
proof (intro allI impI)
  fix i j
  assume "i < length (map state (nodes \<sigma>))" "j < length (map state (nodes \<sigma>))" "i \<noteq> j"
  then have i: "i < length (nodes \<sigma>)" and j: "j < length (nodes \<sigma>)"
    by simp_all
  have "state (nodes \<sigma> ! i) \<noteq> state (nodes \<sigma> ! j)"
  proof
    assume "state (nodes \<sigma> ! i) = state (nodes \<sigma> ! j)"
    then have "generated \<sigma> (state (nodes \<sigma> ! i)) = generated \<sigma> (state (nodes \<sigma> ! j))"
      by (rule arg_cong)
    then have "Some i = Some j"
      unfolding table_ok_nth[OF assms i] table_ok_nth[OF assms j] .
    with \<open>i \<noteq> j\<close> show False by simp
  qed
  with i j show "map state (nodes \<sigma>) ! i \<noteq> map state (nodes \<sigma>) ! j"
    by simp
qed

lemma table_ok_dom:
  assumes "table_ok \<sigma>"
  shows "dom (generated \<sigma>) = set (map state (nodes \<sigma>))"
proof
  show "dom (generated \<sigma>) \<subseteq> set (map state (nodes \<sigma>))"
  proof
    fix s assume "s \<in> dom (generated \<sigma>)"
    then obtain p where "generated \<sigma> s = Some p" by auto
    with assms have p: "p < length (nodes \<sigma>)" "state (nodes \<sigma> ! p) = s"
      using table_ok_lookup by blast+
    from p(1) have "nodes \<sigma> ! p \<in> set (nodes \<sigma>)" by (rule nth_mem)
    then have "state (nodes \<sigma> ! p) \<in> state ` set (nodes \<sigma>)" by (rule imageI)
    with p(2) show "s \<in> set (map state (nodes \<sigma>))" by simp
  qed
next
  show "set (map state (nodes \<sigma>)) \<subseteq> dom (generated \<sigma>)"
  proof
    fix s assume "s \<in> set (map state (nodes \<sigma>))"
    then obtain p where "p < length (nodes \<sigma>)" "state (nodes \<sigma> ! p) = s"
      by (auto simp: in_set_conv_nth)
    with assms have "generated \<sigma> s = Some p"
      using table_ok_nth by blast
    then show "s \<in> dom (generated \<sigma>)" by auto
  qed
qed

lemma table_ok_card:
  assumes "table_ok \<sigma>"
  shows "card (dom (generated \<sigma>)) = length (nodes \<sigma>)"
  using table_ok_dom[OF assms] distinct_card[OF table_ok_distinct[OF assms]] by simp

lemma main_table_ok:
  assumes "main fuel = Inr (\<sigma>, ls)"
  shows "table_ok \<sigma> \<and> dom (generated \<sigma>) = insert FWDCstate0 (reported \<sigma>)"
proof -
  from assms have l: "search_loop fuel fuel start_search = Inr \<sigma>"
    by (cases "search_loop fuel fuel start_search")
       (auto simp: main_unfold split: option.splits sum.splits)
  from init_table_ok[OF init_Inr] search_loop_table_ok[OF _ l] search_loop_reported[OF _ l]
  show ?thesis by blast
qed

text \<open>
  C8. The table and the heap stay consistent: this holds after initialisation, each
  handling of a successor keeps it and allocates a node exactly when the state passes
  the guard and the table has no entry for it, each iteration keeps it, and so it holds
  when the program ends, where the table's keys are also exactly the start state and the
  states reported as generated. Consistency means that the nodes have pairwise different
  states and that the table has as many entries as there are nodes.
\<close>

theorem generated_one_node_per_state:
  "(\<forall>\<sigma>. init = Inr \<sigma> \<longrightarrow> table_ok \<sigma> \<and> dom (generated \<sigma>) = insert FWDCstate0 (reported \<sigma>)) \<and>
   (\<forall>fuel t s \<sigma> \<sigma>'. table_ok \<sigma> \<and> generate fuel t s \<sigma> = Inr \<sigma>' \<longrightarrow>
      table_ok \<sigma>' \<and>
      length (nodes \<sigma>') =
        length (nodes \<sigma>) + (if generated \<sigma> s = None \<and> s \<noteq> state (nodes \<sigma> ! t) then 1 else 0)) \<and>
   (\<forall>fuel e es \<sigma> \<sigma>'. table_ok \<sigma> \<and> iteration fuel e es \<sigma> = Inr \<sigma>' \<longrightarrow> table_ok \<sigma>') \<and>
   (\<forall>fuel \<sigma> ls. main fuel = Inr (\<sigma>, ls) \<longrightarrow>
      table_ok \<sigma> \<and> dom (generated \<sigma>) = insert FWDCstate0 (reported \<sigma>)) \<and>
   (\<forall>\<sigma>. table_ok \<sigma> \<longrightarrow>
      distinct (map state (nodes \<sigma>)) \<and> dom (generated \<sigma>) = set (map state (nodes \<sigma>)) \<and>
      card (dom (generated \<sigma>)) = length (nodes \<sigma>))"
proof (intro conjI allI impI)
  fix \<sigma>
  assume "init = Inr \<sigma>"
  then show "table_ok \<sigma>" "dom (generated \<sigma>) = insert FWDCstate0 (reported \<sigma>)"
    using init_table_ok by blast+
next
  fix fuel t s \<sigma> \<sigma>'
  assume a: "table_ok \<sigma> \<and> generate fuel t s \<sigma> = Inr \<sigma>'"
  then show "table_ok \<sigma>'"
    using generate_table_ok by blast
  from a show "length (nodes \<sigma>') =
      length (nodes \<sigma>) + (if generated \<sigma> s = None \<and> s \<noteq> state (nodes \<sigma> ! t) then 1 else 0)"
    using generate_allocates by blast
next
  fix fuel e es \<sigma> \<sigma>'
  assume "table_ok \<sigma> \<and> iteration fuel e es \<sigma> = Inr \<sigma>'"
  then show "table_ok \<sigma>'"
    using iteration_table_ok by blast
next
  fix fuel \<sigma> ls
  assume "main fuel = Inr (\<sigma>, ls)"
  then show "table_ok \<sigma>" "dom (generated \<sigma>) = insert FWDCstate0 (reported \<sigma>)"
    using main_table_ok by blast+
next
  fix \<sigma>
  assume "table_ok \<sigma>"
  then show "distinct (map state (nodes \<sigma>))" "dom (generated \<sigma>) = set (map state (nodes \<sigma>))"
    "card (dom (generated \<sigma>)) = length (nodes \<sigma>)"
    by (rule table_ok_distinct table_ok_dom table_ok_card)+
qed

text \<open>
  The final state of the run: ten nodes for ten states.
\<close>

theorem generated_one_node_per_state_witness:
  "init = Inr start_search \<and> table_ok start_search \<and>
   \<not> isl (iteration 1 (1, 0) [] start_search) \<and>
   table_ok (projr (iteration 1 (1, 0) [] start_search)) \<and>
   \<not> isl (generate 1 1 FWDCstate0 (projr (iteration 1 (1, 0) [] start_search))) \<and>
   table_ok (projr (generate 1 1 FWDCstate0 (projr (iteration 1 (1, 0) [] start_search)))) \<and>
   length (nodes (projr (generate 1 1 FWDCstate0 (projr (iteration 1 (1, 0) [] start_search))))) = 2 \<and>
   main 9 = Inr (final_search,
     [''Winning state reached.'',
      ''[||FWDC] -> [FD||WC] -> [D||FWC] -> [FWD||C] -> [W||FDC] -> [FWC||D] -> [WC||FD] -> [FWDC||]'']) \<and>
   table_ok final_search \<and> distinct (map state (nodes final_search)) \<and>
   card (dom (generated final_search)) = 10"
proof -
  let ?i = "iteration 1 (1, 0) [] start_search"
  let ?g = "generate 1 1 FWDCstate0 (projr ?i)"
  from generated_one_node_per_state init_Inr have t0: "table_ok start_search"
    by blast
  have i: "\<not> isl ?i" "\<not> isl ?g"
    by code_simp+
  then obtain \<sigma>1 \<sigma>2 where s: "?i = Inr \<sigma>1" "?g = Inr \<sigma>2"
    by (cases ?i; cases ?g) auto
  with generated_one_node_per_state t0 have t1: "table_ok \<sigma>1"
    by blast
  from s have g: "generate 1 1 FWDCstate0 \<sigma>1 = Inr \<sigma>2"
    by simp
  with generated_one_node_per_state t1 have t2: "table_ok \<sigma>2"
    by blast
  have n: "length (nodes (projr ?g)) = 2"
    by code_simp
  from generated_one_node_per_state main_9 have t: "table_ok final_search"
    by blast
  with generated_one_node_per_state
  have "distinct (map state (nodes final_search))"
    "card (dom (generated final_search)) = length (nodes final_search)"
    by blast+
  with t t0 t1 t2 i n s main_9 init_Inr show ?thesis
    by (simp add: final_nodes)
qed

text \<open>
  C9. The program terminates: with any fuel from 9 on, \<open>main\<close> returns a result. And
  every call of \<open>updateCostCond\<close> on a well-formed heap returns once the fuel exceeds the
  slack of the heap above the offered cost, which each accepted update lowers.
\<close>

theorem program_terminates:
  "(\<forall>fuel. 9 \<le> fuel \<longrightarrow> (\<exists>\<sigma> ls. main fuel = Inr (\<sigma>, ls))) \<and>
   (\<forall>H this newcost newparent fr fuel.
      wf_heap H \<and> this < length H \<and> slack H newcost < fuel \<longrightarrow>
      (\<exists>r. updateCostCond fuel newcost newparent this (H, fr) = Inr r))"
proof (intro conjI allI impI)
  fix fuel :: nat
  assume "9 \<le> fuel"
  with main_9 main_iff show "\<exists>\<sigma> ls. main fuel = Inr (\<sigma>, ls)"
    by blast
next
  fix H this newcost newparent fr fuel
  assume "wf_heap H \<and> this < length H \<and> slack H newcost < fuel"
  with updateCostCond_returns(1)[of "(H, fr)" this newcost fuel newparent]
  show "\<exists>r. updateCostCond fuel newcost newparent this (H, fr) = Inr r"
    by simp
qed

text \<open>
  The run with fuel 9, and a call on the heap of the second iteration.
\<close>

theorem program_terminates_witness:
  "(9::nat) \<le> 9 \<and> (\<exists>\<sigma> ls. main 9 = Inr (\<sigma>, ls)) \<and>
   wf_heap (nodes second_search) \<and> 1 < length (nodes second_search) \<and>
   slack (nodes second_search) 0 < 2 \<and>
   (\<exists>r. updateCostCond 2 0 None 1 (nodes second_search, [(3, 1)]) = Inr r)"
proof -
  have a: "wf_heap (nodes second_search)" "1 < length (nodes second_search)"
    "slack (nodes second_search) 0 < 2"
    by (simp_all add: second_search_def wf_heap_def slack_def)
  from program_terminates have "\<exists>\<sigma> ls. main 9 = Inr (\<sigma>, ls)"
    by blast
  moreover from program_terminates a
  have "\<exists>r. updateCostCond 2 0 None 1 (nodes second_search, [(3, 1)]) = Inr r"
    by blast
  ultimately show ?thesis using a by simp
qed

section \<open>The successor guard of the driver\<close>

subsection \<open>Handling a successor returns\<close>

text \<open>
  While a node \<open>t\<close> is expanded, every relaxation is offered the cost \<open>cost2reach t + 1\<close>.
  The summed excess of the costs over that cost bounds the fuel a relaxation needs; no
  step of the expansion raises it, and the cost of \<open>t\<close> itself stays as it is.
\<close>

lemma map_cost_children:
  "map cost2reach (H[t := (H ! t)\<lparr>children := cs\<rparr>]) = map cost2reach H"
proof (rule nth_equalityI)
  show "length (map cost2reach (H[t := (H ! t)\<lparr>children := cs\<rparr>])) = length (map cost2reach H)"
    by simp
next
  fix i
  assume "i < length (map cost2reach (H[t := (H ! t)\<lparr>children := cs\<rparr>]))"
  then have i: "i < length H" by simp
  then show "map cost2reach (H[t := (H ! t)\<lparr>children := cs\<rparr>]) ! i = map cost2reach H ! i"
    by (cases "t = i") simp_all
qed

lemma slack_alt: "slack H c = sum_list (map (\<lambda>x. nat (x - c)) (map cost2reach H))"
  by (simp add: slack_def comp_def)

lemma slack_children: "slack (H[t := (H ! t)\<lparr>children := cs\<rparr>]) c = slack H c"
  unfolding slack_alt map_cost_children ..

lemma slack_new: "cost2reach nd \<le> c \<Longrightarrow> slack (H @ [nd]) c = slack H c"
  by (simp add: slack_def)

lemma wf_heap_add_child:
  assumes "wf_heap H" "q < length H"
  shows "wf_heap (H[t := (H ! t)\<lparr>children := children (H ! t) @ [q]\<rparr>])"
  unfolding wf_heap_def
proof (intro ballI)
  fix nd c
  assume nd: "nd \<in> set (H[t := (H ! t)\<lparr>children := children (H ! t) @ [q]\<rparr>])"
    and c: "c \<in> set (children nd)"
  from nd have "nd = (H ! t)\<lparr>children := children (H ! t) @ [q]\<rparr> \<and> t < length H \<or> nd \<in> set H"
    by (metis in_set_conv_nth length_list_update nth_list_update_eq nth_list_update_neq)
  then have "c < length H"
  proof
    assume a: "nd = (H ! t)\<lparr>children := children (H ! t) @ [q]\<rparr> \<and> t < length H"
    with c have "c \<in> set (children (H ! t)) \<or> c = q" by auto
    moreover from a have "H ! t \<in> set H" by simp
    ultimately show ?thesis using assms unfolding wf_heap_def by blast
  next
    assume "nd \<in> set H"
    with c assms(1) show ?thesis unfolding wf_heap_def by blast
  qed
  then show "c < length (H[t := (H ! t)\<lparr>children := children (H ! t) @ [q]\<rparr>])"
    by simp
qed

lemma wf_heap_new:
  assumes "wf_heap H" "children nd = []"
  shows "wf_heap (H @ [nd])"
  using assms unfolding wf_heap_def by (auto simp: less_Suc_eq)

lemma add_child_returns:
  assumes "generated \<sigma> s = Some q" "t < length (nodes \<sigma>)" "q < length (nodes \<sigma>)"
  shows "add_child t s r \<sigma> =
           Inr (\<sigma>\<lparr>nodes := (nodes \<sigma>)[t := (nodes \<sigma> ! t)\<lparr>children := children (nodes \<sigma> ! t) @ [q]\<rparr>],
                  printed := printed \<sigma> @
                    [Generated s r (cost2reach (nodes \<sigma> ! q)) (projectedCost (nodes \<sigma> ! q))]\<rparr>)"
proof -
  have "cost2reach ((nodes \<sigma>)[t := (nodes \<sigma> ! t)\<lparr>children := children (nodes \<sigma> ! t) @ [q]\<rparr>] ! q) =
      cost2reach (nodes \<sigma> ! q)"
    "projectedCost ((nodes \<sigma>)[t := (nodes \<sigma> ! t)\<lparr>children := children (nodes \<sigma> ! t) @ [q]\<rparr>] ! q) =
      projectedCost (nodes \<sigma> ! q)"
    using assms(2,3) by (simp_all add: nth_list_update)
  with assms show ?thesis
    by (simp add: add_child_def Let_def)
qed

text \<open>
  What handling a successor does to a well-formed search state, with enough fuel: it
  returns, and the state it returns is described by the branch taken.
\<close>

lemma generate_known:
  assumes t: "t < length (nodes \<sigma>)" and ne: "s \<noteq> state (nodes \<sigma> ! t)"
    and g: "generated \<sigma> s = Some q" and q: "q < length (nodes \<sigma>)"
    and wf: "wf_heap (nodes \<sigma>)"
    and sl: "slack (nodes \<sigma>) (cost2reach (nodes \<sigma> ! t) + 1) < fuel"
  shows "\<exists>b H fr.
           updateCostCond fuel (cost2reach (nodes \<sigma> ! t) + 1) (Some t) q (nodes \<sigma>, frontier \<sigma>) =
             Inr (b, H, fr) \<and>
           heap_le (nodes \<sigma>) H \<and> H ! t = nodes \<sigma> ! t \<and>
           generate fuel t s \<sigma> =
             Inr (\<sigma>\<lparr>nodes := H[t := (H ! t)\<lparr>children := children (H ! t) @ [q]\<rparr>],
                    frontier := fr,
                    printed := printed \<sigma> @
                      [Generated s (if b then Updated_F else No_update)
                         (cost2reach (H ! q)) (projectedCost (H ! q))]\<rparr>)"
proof -
  let ?c = "cost2reach (nodes \<sigma> ! t) + 1"
  from updateCostCond_returns(1)[of "(nodes \<sigma>, frontier \<sigma>)" q ?c fuel "Some t"] wf q sl
  obtain b H fr where
    u: "updateCostCond fuel ?c (Some t) q (nodes \<sigma>, frontier \<sigma>) = Inr (b, H, fr)"
    by (metis fst_conv prod_cases3)
  from updateCostCond_heap_le(1)[OF u] have le: "heap_le (nodes \<sigma>) H"
    by simp
  then have len: "length H = length (nodes \<sigma>)"
    by (simp add: heap_le_def)
  from updateCostCond_keeps_cheap(1)[OF u, of t] t have same: "H ! t = nodes \<sigma> ! t"
    by simp
  let ?\<sigma>1 = "\<sigma>\<lparr>nodes := H, frontier := fr\<rparr>"
  from g t q len have
    "add_child t s (if b then Updated_F else No_update) ?\<sigma>1 =
       Inr (?\<sigma>1\<lparr>nodes := (nodes ?\<sigma>1)[t := (nodes ?\<sigma>1 ! t)\<lparr>children := children (nodes ?\<sigma>1 ! t) @ [q]\<rparr>],
                  printed := printed ?\<sigma>1 @
                    [Generated s (if b then Updated_F else No_update)
                       (cost2reach (nodes ?\<sigma>1 ! q)) (projectedCost (nodes ?\<sigma>1 ! q))]\<rparr>)"
    by (intro add_child_returns) simp_all
  with u t ne g have "generate fuel t s \<sigma> =
      Inr (\<sigma>\<lparr>nodes := H[t := (H ! t)\<lparr>children := children (H ! t) @ [q]\<rparr>],
             frontier := fr,
             printed := printed \<sigma> @
               [Generated s (if b then Updated_F else No_update)
                  (cost2reach (H ! q)) (projectedCost (H ! q))]\<rparr>)"
    by (simp add: generate_def state_neq_iff)
  with u le same show ?thesis
    by blast
qed

lemma generate_unknown:
  assumes t: "t < length (nodes \<sigma>)" and ne: "s \<noteq> state (nodes \<sigma> ! t)"
    and g: "generated \<sigma> s = None"
  shows "generate fuel t s \<sigma> =
           Inr (\<sigma>\<lparr>nodes := (nodes \<sigma> @
                    [\<lparr>state = s, parent = Some t, cost2reach = cost2reach (nodes \<sigma> ! t) + 1,
                      projectedCost = h s, children = []\<rparr>])
                    [t := (nodes \<sigma> ! t)\<lparr>children := children (nodes \<sigma> ! t) @ [length (nodes \<sigma>)]\<rparr>],
                  generated := (generated \<sigma>)(s \<mapsto> length (nodes \<sigma>)),
                  frontier := frontier_insert (cost2reach (nodes \<sigma> ! t) + 1 + h s, length (nodes \<sigma>))
                    (frontier \<sigma>),
                  winningNode := (if isWinning s then Some (length (nodes \<sigma>)) else winningNode \<sigma>),
                  printed := printed \<sigma> @ [Generated s New_node (cost2reach (nodes \<sigma> ! t) + 1) (h s)]\<rparr>)"
  using assms
  by (simp add: generate_def state_neq_iff newPSNode_def Let_def generated_insert_def
      add_child_def nth_append nth_list_update)

lemma generate_step:
  assumes t: "t < length (nodes \<sigma>)" and wf: "wf_heap (nodes \<sigma>)" and ok: "table_ok \<sigma>"
    and sl: "slack (nodes \<sigma>) (cost2reach (nodes \<sigma> ! t) + 1) < fuel"
  shows "\<exists>\<sigma>'. generate fuel t s \<sigma> = Inr \<sigma>' \<and> t < length (nodes \<sigma>') \<and> wf_heap (nodes \<sigma>') \<and>
           table_ok \<sigma>' \<and> cost2reach (nodes \<sigma>' ! t) = cost2reach (nodes \<sigma> ! t) \<and>
           slack (nodes \<sigma>') (cost2reach (nodes \<sigma> ! t) + 1) < fuel"
proof (cases "s = state (nodes \<sigma> ! t)")
  case True
  with t have "generate fuel t s \<sigma> = Inr \<sigma>"
    by (simp add: generate_def state_neq_iff)
  with assms show ?thesis by simp
next
  case ne: False
  let ?c = "cost2reach (nodes \<sigma> ! t) + 1"
  show ?thesis
  proof (cases "generated \<sigma> s")
    case (Some q)
    with ok have q: "q < length (nodes \<sigma>)"
      using table_ok_lookup by blast
    from generate_known[OF t ne Some q wf sl] obtain b H fr where
      le: "heap_le (nodes \<sigma>) H" and same: "H ! t = nodes \<sigma> ! t" and
      g: "generate fuel t s \<sigma> =
             Inr (\<sigma>\<lparr>nodes := H[t := (H ! t)\<lparr>children := children (H ! t) @ [q]\<rparr>],
                    frontier := fr,
                    printed := printed \<sigma> @
                      [Generated s (if b then Updated_F else No_update)
                         (cost2reach (H ! q)) (projectedCost (H ! q))]\<rparr>)"
      (is "_ = Inr ?\<sigma>'")
      by blast
    from le have len: "length H = length (nodes \<sigma>)"
      by (simp add: heap_le_def)
    from wf_heap_le[OF le wf] q len
    have w: "wf_heap (H[t := (H ! t)\<lparr>children := children (H ! t) @ [q]\<rparr>])"
      by (intro wf_heap_add_child) simp_all
    from slack_heap_le[OF le, of ?c] sl
    have s': "slack (H[t := (H ! t)\<lparr>children := children (H ! t) @ [q]\<rparr>]) ?c < fuel"
      by (simp add: slack_children)
    from t len same
    have c: "cost2reach (H[t := (H ! t)\<lparr>children := children (H ! t) @ [q]\<rparr>] ! t) =
        cost2reach (nodes \<sigma> ! t)"
      by simp
    from generate_table_ok[OF ok g] have "table_ok ?\<sigma>'" .
    with g w s' c t len show ?thesis
      by simp
  next
    case None
    let ?wn = "\<lparr>state = s, parent = Some t, cost2reach = ?c, projectedCost = h s, children = []\<rparr>"
    let ?H = "nodes \<sigma> @ [?wn]"
    from t have ht: "?H ! t = nodes \<sigma> ! t"
      by (simp add: nth_append)
    from generate_unknown[OF t ne None, of fuel] have
      g: "generate fuel t s \<sigma> =
           Inr (\<sigma>\<lparr>nodes := ?H[t := (?H ! t)\<lparr>children := children (?H ! t) @ [length (nodes \<sigma>)]\<rparr>],
                  generated := (generated \<sigma>)(s \<mapsto> length (nodes \<sigma>)),
                  frontier := frontier_insert (?c + h s, length (nodes \<sigma>)) (frontier \<sigma>),
                  winningNode := (if isWinning s then Some (length (nodes \<sigma>)) else winningNode \<sigma>),
                  printed := printed \<sigma> @ [Generated s New_node ?c (h s)]\<rparr>)"
      (is "_ = Inr ?\<sigma>'")
      unfolding ht .
    have "wf_heap ?H"
      using wf by (intro wf_heap_new) simp_all
    then have w: "wf_heap (?H[t := (?H ! t)\<lparr>children := children (?H ! t) @ [length (nodes \<sigma>)]\<rparr>])"
      by (intro wf_heap_add_child) simp_all
    have "slack ?H ?c = slack (nodes \<sigma>) ?c"
      by (intro slack_new) simp
    with sl have s': "slack (?H[t := (?H ! t)\<lparr>children := children (?H ! t) @ [length (nodes \<sigma>)]\<rparr>]) ?c < fuel"
      by (simp only: slack_children)
    from t have c: "cost2reach (?H[t := (?H ! t)\<lparr>children := children (?H ! t) @ [length (nodes \<sigma>)]\<rparr>] ! t) =
        cost2reach (nodes \<sigma> ! t)"
      by (simp add: nth_append)
    from generate_table_ok[OF ok g] have "table_ok ?\<sigma>'" .
    with g w s' c t show ?thesis
      by simp
  qed
qed

lemma expand_returns:
  assumes "t < length (nodes \<sigma>)" "wf_heap (nodes \<sigma>)" "table_ok \<sigma>"
    "slack (nodes \<sigma>) (cost2reach (nodes \<sigma> ! t) + 1) < fuel"
  shows "\<exists>\<sigma>'. expand fuel t ss \<sigma> = Inr \<sigma>'"
  using assms
proof (induction ss arbitrary: \<sigma>)
  case Nil
  then show ?case by simp
next
  case (Cons s ss)
  show ?case
  proof (cases "winningNode \<sigma> = None")
    case True
    from generate_step[OF Cons.prems, of s] obtain \<sigma>1 where
      g: "generate fuel t s \<sigma> = Inr \<sigma>1" and
      i: "t < length (nodes \<sigma>1)" "wf_heap (nodes \<sigma>1)" "table_ok \<sigma>1"
        "cost2reach (nodes \<sigma>1 ! t) = cost2reach (nodes \<sigma> ! t)"
        "slack (nodes \<sigma>1) (cost2reach (nodes \<sigma> ! t) + 1) < fuel"
      by blast
    from i(4,5) have "slack (nodes \<sigma>1) (cost2reach (nodes \<sigma>1 ! t) + 1) < fuel"
      by simp
    from Cons.IH[OF i(1,2,3) this] obtain \<sigma>' where "expand fuel t ss \<sigma>1 = Inr \<sigma>'"
      by blast
    with g True show ?thesis by simp
  next
    case False
    then show ?thesis by auto
  qed
qed

lemma generate_reports:
  assumes "generate fuel t s \<sigma> = Inr \<sigma>'" "s \<noteq> state (nodes \<sigma> ! t)"
  shows "\<exists>r g hh. printed \<sigma>' = printed \<sigma> @ [Generated s r g hh]"
  using assms(1)
proof (cases rule: generate_cases)
  case skip
  with assms show ?thesis by simp
next
  case (regen q b H fr)
  from regen(5) show ?thesis
    by (auto elim!: add_child_Inr)
next
  case (new workNode)
  from new(5) show ?thesis
    by (auto elim!: add_child_Inr)
qed

lemma expand_reports_all:
  assumes "expand fuel t ss \<sigma> = Inr \<sigma>'" "winningNode \<sigma>' = None" "u \<in> set ss"
    "u \<noteq> state (nodes \<sigma> ! t)" "t < length (nodes \<sigma>)"
  shows "\<exists>es. printed \<sigma>' = printed \<sigma> @ es \<and> u \<in> set (concat (map reported_by es))"
  using assms
proof (induction ss arbitrary: \<sigma>)
  case Nil
  then show ?case by simp
next
  case (Cons s ss)
  have w: "winningNode \<sigma> = None"
  proof (rule ccontr)
    assume "winningNode \<sigma> \<noteq> None"
    with Cons.prems(1) have "\<sigma>' = \<sigma>" by auto
    with Cons.prems(2) \<open>winningNode \<sigma> \<noteq> None\<close> show False by simp
  qed
  with Cons.prems(1) obtain \<sigma>1 where
    g: "generate fuel t s \<sigma> = Inr \<sigma>1" and e: "expand fuel t ss \<sigma>1 = Inr \<sigma>'"
    by (auto split: sum.splits)
  from generate_ext[OF g] have g1: "search_grows \<sigma> \<sigma>1" .
  from expand_ext[OF e] have g2: "search_grows \<sigma>1 \<sigma>'" .
  from g1 Cons.prems(5) have t1: "t < length (nodes \<sigma>1)" "state (nodes \<sigma>1 ! t) = state (nodes \<sigma> ! t)"
    unfolding search_grows_def by simp_all
  show ?case
  proof (cases "s = u")
    case True
    from generate_reports[OF g] Cons.prems(4) True obtain r g hh where
      p1: "printed \<sigma>1 = printed \<sigma> @ [Generated u r g hh]"
      by blast
    from g2 obtain es where "printed \<sigma>' = printed \<sigma>1 @ es"
      unfolding search_grows_def by blast
    with p1 have "printed \<sigma>' = printed \<sigma> @ (Generated u r g hh # es)"
      "u \<in> set (concat (map reported_by (Generated u r g hh # es)))"
      by simp_all
    then show ?thesis by blast
  next
    case False
    with Cons.prems(3) have m: "u \<in> set ss" by simp
    from Cons.prems(4) t1 have ne: "u \<noteq> state (nodes \<sigma>1 ! t)" by simp
    from Cons.IH[OF e Cons.prems(2) m ne t1(1)] obtain es where
      p2: "printed \<sigma>' = printed \<sigma>1 @ es" "u \<in> set (concat (map reported_by es))"
      by blast
    from g1 obtain es1 where "printed \<sigma>1 = printed \<sigma> @ es1"
      unfolding search_grows_def by blast
    with p2 have "printed \<sigma>' = printed \<sigma> @ (es1 @ es)"
      "u \<in> set (concat (map reported_by (es1 @ es)))"
      by simp_all
    then show ?thesis by blast
  qed
qed

subsection \<open>The second iteration of the run\<close>

text \<open>
  \<open>second_search\<close> is the state the first iteration of the run leaves, with the first
  frontier entry taken off and the expansion of its node announced.
\<close>

lemma second_search_in_run:
  "\<not> isl (iteration 1 (1, 0) [] start_search) \<and>
   nodes (projr (iteration 1 (1, 0) [] start_search)) = nodes second_search \<and>
   frontier (projr (iteration 1 (1, 0) [] start_search)) = [(3, 1)] \<and>
   winningNode (projr (iteration 1 (1, 0) [] start_search)) = None \<and>
   printed (projr (iteration 1 (1, 0) [] start_search)) @ [Expand (FWDCstate4 True False True False)] =
     printed second_search \<and>
   map (generated (projr (iteration 1 (1, 0) [] start_search)))
     [FWDCstate4 a b c d. a \<leftarrow> [False, True], b \<leftarrow> [False, True], c \<leftarrow> [False, True],
        d \<leftarrow> [False, True]] =
   map (generated second_search)
     [FWDCstate4 a b c d. a \<leftarrow> [False, True], b \<leftarrow> [False, True], c \<leftarrow> [False, True],
        d \<leftarrow> [False, True]]"
  by code_simp

lemma second_search_wf:
  "1 < length (nodes second_search)" "0 < length (nodes second_search)"
  "wf_heap (nodes second_search)"
  "slack (nodes second_search) (cost2reach (nodes second_search ! 1) + 1) < 1"
  "parent (nodes second_search ! 1) = Some 0"
  "state (nodes second_search ! 1) \<in> set (nextStates (state (nodes second_search ! 0)))"
  by (simp_all add: second_search_def wf_heap_def slack_def move_defs FWDCstate0_def)

lemma second_search_table_ok: "table_ok second_search"
  unfolding table_ok_def
proof (intro conjI allI impI)
  fix s p
  assume "generated second_search s = Some p"
  then have "s = FWDCstate4 True False True False \<and> p = 1 \<or> s = FWDCstate0 \<and> p = 0"
    by (simp add: second_search_def split: if_splits)
  then show "p < length (nodes second_search)" "state (nodes second_search ! p) = s"
    by (auto simp: second_search_def)
next
  fix p
  assume "p < length (nodes second_search)"
  then have "p = 0 \<or> p = 1"
    by (auto simp: second_search_def)
  then show "generated second_search (state (nodes second_search ! p)) = Some p"
    by (auto simp: second_search_def FWDCstate0_def FWDCstate4_def)
qed

lemma second_search_expand_winning:
  "winningNode (projr (expand 1 1 (nextStates (FWDCstate4 True False True False)) second_search)) = None"
  by code_simp

lemma second_search_state_1: "state (nodes second_search ! 1) = FWDCstate4 True False True False"
  by (simp add: second_search_def)

subsection \<open>The claims about the guard\<close>

text \<open>
  C7, amended. On a search state with a well-formed heap and a consistent table, and with
  fuel above the summed excess of the costs over \<open>cost2reach t + 1\<close>, handling a successor
  \<open>s\<close> of the expanded node \<open>t\<close> returns. Only a successor equal to the state of \<open>t\<close>
  itself is excluded, and then nothing changes; no element of \<open>nextStates\<close> of the state of
  \<open>t\<close> ever equals it. Every other successor ends with a node in the table, which is
  appended to the children of \<open>t\<close>, and is reported as generated. In particular a
  successor equal to the state of the parent \<open>p\<close> of \<open>t\<close> (from which the state of \<open>t\<close> is one
  move away) is handled like any other state already in the table: \<open>p\<close> is offered
  \<open>cost2reach t + 1\<close> with \<open>t\<close> as parent, \<open>p\<close> is appended to the children of \<open>t\<close>, and
  the state is reported as generated, with or without an update.
\<close>

theorem generate_guard:
  assumes "t < length (nodes \<sigma>)" and "wf_heap (nodes \<sigma>)" and "table_ok \<sigma>"
    and "slack (nodes \<sigma>) (cost2reach (nodes \<sigma> ! t) + 1) < fuel"
  shows "(\<forall>u \<in> set (nextStates (state (nodes \<sigma> ! t))). state_neq u (state (nodes \<sigma> ! t))) \<and>
         (\<exists>\<sigma>'. generate fuel t s \<sigma> = Inr \<sigma>' \<and>
            (if state_neq s (state (nodes \<sigma> ! t))
             then \<exists>q r g hh. generated \<sigma>' s = Some q \<and>
                    children (nodes \<sigma>' ! t) = children (nodes \<sigma> ! t) @ [q] \<and>
                    printed \<sigma>' = printed \<sigma> @ [Generated s r g hh]
             else \<sigma>' = \<sigma>)) \<and>
         (\<forall>p. parent (nodes \<sigma> ! t) = Some p \<and> p < length (nodes \<sigma>) \<and>
              state (nodes \<sigma> ! t) \<in> set (nextStates (state (nodes \<sigma> ! p))) \<longrightarrow>
            (\<exists>\<sigma>' b H fr.
               generate fuel t (state (nodes \<sigma> ! p)) \<sigma> = Inr \<sigma>' \<and>
               updateCostCond fuel (cost2reach (nodes \<sigma> ! t) + 1) (Some t) p (nodes \<sigma>, frontier \<sigma>) =
                 Inr (b, H, fr) \<and>
               nodes \<sigma>' = H[t := (H ! t)\<lparr>children := children (H ! t) @ [p]\<rparr>] \<and>
               frontier \<sigma>' = fr \<and>
               printed \<sigma>' = printed \<sigma> @
                 [Generated (state (nodes \<sigma> ! p)) (if b then Updated_F else No_update)
                    (cost2reach (H ! p)) (projectedCost (H ! p))]))"
proof (intro conjI ballI allI impI)
  fix u
  assume "u \<in> set (nextStates (state (nodes \<sigma> ! t)))"
  then have "FL u = (\<not> FL (state (nodes \<sigma> ! t)))"
    by (rule nextStates_flip)
  then show "state_neq u (state (nodes \<sigma> ! t))"
    by (simp add: state_neq_def)
next
  show "\<exists>\<sigma>'. generate fuel t s \<sigma> = Inr \<sigma>' \<and>
          (if state_neq s (state (nodes \<sigma> ! t))
           then \<exists>q r g hh. generated \<sigma>' s = Some q \<and>
                  children (nodes \<sigma>' ! t) = children (nodes \<sigma> ! t) @ [q] \<and>
                  printed \<sigma>' = printed \<sigma> @ [Generated s r g hh]
           else \<sigma>' = \<sigma>)"
  proof (cases "s = state (nodes \<sigma> ! t)")
    case True
    with assms(1) have "generate fuel t s \<sigma> = Inr \<sigma>"
      by (simp add: generate_def state_neq_iff)
    with True show ?thesis
      by (simp add: state_neq_iff)
  next
    case ne: False
    show ?thesis
    proof (cases "generated \<sigma> s")
      case (Some q)
      with assms(3) have q: "q < length (nodes \<sigma>)"
        using table_ok_lookup by blast
      from generate_known[OF assms(1) ne Some q assms(2,4)] obtain b H fr where
        le: "heap_le (nodes \<sigma>) H" and same: "H ! t = nodes \<sigma> ! t" and
        g: "generate fuel t s \<sigma> =
             Inr (\<sigma>\<lparr>nodes := H[t := (H ! t)\<lparr>children := children (H ! t) @ [q]\<rparr>],
                    frontier := fr,
                    printed := printed \<sigma> @
                      [Generated s (if b then Updated_F else No_update)
                         (cost2reach (H ! q)) (projectedCost (H ! q))]\<rparr>)"
        by blast
      from le assms(1) have "t < length H"
        by (simp add: heap_le_def)
      with g same Some ne show ?thesis
        by (simp add: state_neq_iff)
    next
      case None
      from generate_unknown[OF assms(1) ne None, of fuel] assms(1) ne show ?thesis
        by (simp add: state_neq_iff nth_append)
    qed
  qed
next
  fix p
  assume a: "parent (nodes \<sigma> ! t) = Some p \<and> p < length (nodes \<sigma>) \<and>
             state (nodes \<sigma> ! t) \<in> set (nextStates (state (nodes \<sigma> ! p)))"
  then have "FL (state (nodes \<sigma> ! t)) = (\<not> FL (state (nodes \<sigma> ! p)))"
    using nextStates_flip by blast
  then have ne: "state (nodes \<sigma> ! p) \<noteq> state (nodes \<sigma> ! t)"
    by auto
  from a have p: "p < length (nodes \<sigma>)"
    by simp
  from table_ok_nth[OF assms(3) p] have g: "generated \<sigma> (state (nodes \<sigma> ! p)) = Some p" .
  from generate_known[OF assms(1) ne g p assms(2,4)]
  show "\<exists>\<sigma>' b H fr.
          generate fuel t (state (nodes \<sigma> ! p)) \<sigma> = Inr \<sigma>' \<and>
          updateCostCond fuel (cost2reach (nodes \<sigma> ! t) + 1) (Some t) p (nodes \<sigma>, frontier \<sigma>) =
            Inr (b, H, fr) \<and>
          nodes \<sigma>' = H[t := (H ! t)\<lparr>children := children (H ! t) @ [p]\<rparr>] \<and>
          frontier \<sigma>' = fr \<and>
          printed \<sigma>' = printed \<sigma> @
            [Generated (state (nodes \<sigma> ! p)) (if b then Updated_F else No_update)
               (cost2reach (H ! p)) (projectedCost (H ! p))]"
    by fastforce
qed

text \<open>
  Node 1 of the second iteration and the state of its parent, the start node, with fuel 1.
\<close>

theorem generate_guard_witness:
  "1 < length (nodes second_search) \<and> wf_heap (nodes second_search) \<and> table_ok second_search \<and>
   slack (nodes second_search) (cost2reach (nodes second_search ! 1) + 1) < 1 \<and>
   FWDCstate4 False False False False \<in> set (nextStates (state (nodes second_search ! 1))) \<and>
   state_neq (FWDCstate4 False False False False) (state (nodes second_search ! 1)) \<and>
   parent (nodes second_search ! 1) = Some 0 \<and> 0 < length (nodes second_search) \<and>
   state (nodes second_search ! 1) \<in> set (nextStates (state (nodes second_search ! 0))) \<and>
   (\<exists>\<sigma>' b H fr.
      generate 1 1 (state (nodes second_search ! 0)) second_search = Inr \<sigma>' \<and>
      updateCostCond 1 (cost2reach (nodes second_search ! 1) + 1) (Some 1) 0
        (nodes second_search, frontier second_search) = Inr (b, H, fr) \<and>
      nodes \<sigma>' = H[1 := (H ! 1)\<lparr>children := children (H ! 1) @ [0]\<rparr>] \<and>
      printed \<sigma>' = printed second_search @
        [Generated (state (nodes second_search ! 0)) (if b then Updated_F else No_update)
           (cost2reach (H ! 0)) (projectedCost (H ! 0))])"
proof -
  note g = generate_guard[OF second_search_wf(1,3) second_search_table_ok second_search_wf(4)]
  have m: "FWDCstate4 False False False False \<in> set (nextStates (state (nodes second_search ! 1)))"
    by (simp add: second_search_def move_defs)
  with g have n: "state_neq (FWDCstate4 False False False False) (state (nodes second_search ! 1))"
    by blast
  from g second_search_wf(2,5,6)
  have "\<exists>\<sigma>' b H fr.
      generate 1 1 (state (nodes second_search ! 0)) second_search = Inr \<sigma>' \<and>
      updateCostCond 1 (cost2reach (nodes second_search ! 1) + 1) (Some 1) 0
        (nodes second_search, frontier second_search) = Inr (b, H, fr) \<and>
      nodes \<sigma>' = H[1 := (H ! 1)\<lparr>children := children (H ! 1) @ [0]\<rparr>] \<and>
      printed \<sigma>' = printed second_search @
        [Generated (state (nodes second_search ! 0)) (if b then Updated_F else No_update)
           (cost2reach (H ! 0)) (projectedCost (H ! 0))]"
    by blast
  with m n second_search_wf second_search_table_ok show ?thesis
    by blast
qed

text \<open>
  C7 does not hold: in the run, the node of \<^verbatim>\<open>[FD||WC]\<close> (node 1) has the start node as
  parent, and its expansion reports the start state as generated, offers it a relaxation
  (answered with no update) and appends the start node to the children of node 1.
\<close>

theorem parent_state_is_processed:
  "main 9 = Inr (final_search,
     [''Winning state reached.'',
      ''[||FWDC] -> [FD||WC] -> [D||FWC] -> [FWD||C] -> [W||FDC] -> [FWC||D] -> [WC||FD] -> [FWDC||]'']) \<and>
   state (nodes final_search ! 1) = FWDCstate4 True False True False \<and>
   parent (nodes final_search ! 1) = Some 0 \<and>
   state (nodes final_search ! 0) = FWDCstate4 False False False False \<and>
   take 3 (drop 2 (printed final_search)) =
     [Expand (FWDCstate4 True False True False),
      Generated (FWDCstate4 False False False False) No_update 0 3,
      Generated (FWDCstate4 False False True False) New_node 2 2] \<and>
   children (nodes final_search ! 1) = [0, 2]"
proof -
  have "state (nodes final_search ! 1) = FWDCstate4 True False True False"
    "parent (nodes final_search ! 1) = Some 0"
    "state (nodes final_search ! 0) = FWDCstate4 False False False False"
    "children (nodes final_search ! 1) = [0, 2]"
    by (simp_all add: final_nodes)
  moreover have "take 3 (drop 2 (printed final_search)) =
     [Expand (FWDCstate4 True False True False),
      Generated (FWDCstate4 False False False False) No_update 0 3,
      Generated (FWDCstate4 False False True False) New_node 2 2]"
    by (simp add: final_printed)
  ultimately show ?thesis
    using main_9 by blast
qed

text \<open>
  C10 does not hold for every expansion: the last expansion of the run, of the node of
  \<^verbatim>\<open>[WC||FD]\<close> (node 8, whose parent is node 7), creates the goal node from the first
  successor and stops; the second successor, the state of node 7, is not regenerated.
\<close>

theorem last_expansion_skips_parent_state:
  "main 9 = Inr (final_search,
     [''Winning state reached.'',
      ''[||FWDC] -> [FD||WC] -> [D||FWC] -> [FWD||C] -> [W||FDC] -> [FWC||D] -> [WC||FD] -> [FWDC||]'']) \<and>
   state (nodes final_search ! 8) = FWDCstate4 False True False True \<and>
   parent (nodes final_search ! 8) = Some 7 \<and>
   state (nodes final_search ! 7) = FWDCstate4 True True False True \<and>
   nextStates (FWDCstate4 False True False True) =
     [FWDCstate4 True True True True, FWDCstate4 True True False True] \<and>
   drop 25 (printed final_search) =
     [Expand (FWDCstate4 False True False True),
      Generated (FWDCstate4 True True True True) New_node 7 0] \<and>
   children (nodes final_search ! 8) = [9]"
proof -
  have "state (nodes final_search ! 8) = FWDCstate4 False True False True"
    "parent (nodes final_search ! 8) = Some 7"
    "state (nodes final_search ! 7) = FWDCstate4 True True False True"
    "children (nodes final_search ! 8) = [9]"
    by (simp_all add: final_nodes)
  moreover have "drop 25 (printed final_search) =
     [Expand (FWDCstate4 False True False True),
      Generated (FWDCstate4 True True True True) New_node 7 0]"
    by (simp add: final_printed)
  moreover have "nextStates (FWDCstate4 False True False True) =
     [FWDCstate4 True True True True, FWDCstate4 True True False True]"
    by (simp add: move_defs)
  ultimately show ?thesis
    using main_9 by blast
qed

text \<open>
  C10, amended. No state is among its own successors, so the guard of the driver lets
  every successor pass. On a search state with a well-formed heap and a consistent table,
  and with fuel above the summed excess of the costs over \<open>cost2reach t + 1\<close>, the expansion
  of a node \<open>t\<close> returns. When it ends without a winning node, every successor of the state
  of \<open>t\<close> has been reported as generated; in particular, when the state of \<open>t\<close> is one move
  away from the state of its parent \<open>p\<close>, the parent's state has been regenerated and
  offered a relaxation: \<open>p\<close> is among the children of \<open>t\<close> and the expansion has reported
  the parent's state as an already known state.
\<close>

theorem successor_filter_never_excludes:
  "s \<notin> set (nextStates s) \<and>
   (\<forall>u \<in> set (nextStates s). state_neq u s) \<and>
   (\<forall>fuel t \<sigma>.
      t < length (nodes \<sigma>) \<and> wf_heap (nodes \<sigma>) \<and> table_ok \<sigma> \<and>
      slack (nodes \<sigma>) (cost2reach (nodes \<sigma> ! t) + 1) < fuel \<longrightarrow>
      (\<exists>\<sigma>'. expand fuel t (nextStates (state (nodes \<sigma> ! t))) \<sigma> = Inr \<sigma>' \<and>
         (winningNode \<sigma>' = None \<longrightarrow>
            (\<forall>u \<in> set (nextStates (state (nodes \<sigma> ! t))).
               \<exists>es. printed \<sigma>' = printed \<sigma> @ es \<and> u \<in> set (concat (map reported_by es))) \<and>
            (\<forall>p. parent (nodes \<sigma> ! t) = Some p \<and> p < length (nodes \<sigma>) \<and>
                 state (nodes \<sigma> ! t) \<in> set (nextStates (state (nodes \<sigma> ! p))) \<longrightarrow>
               p \<in> set (children (nodes \<sigma>' ! t)) \<and>
               (\<exists>es r g hh. printed \<sigma>' = printed \<sigma> @ es \<and> r \<noteq> New_node \<and>
                  Generated (state (nodes \<sigma> ! p)) r g hh \<in> set es)))))"
proof (intro conjI allI impI ballI)
  show "s \<notin> set (nextStates s)"
    using nextStates_flip[of s s] by blast
next
  fix u
  assume "u \<in> set (nextStates s)"
  then have "FL u = (\<not> FL s)"
    by (rule nextStates_flip)
  then show "state_neq u s"
    by (simp add: state_neq_def)
next
  fix fuel t \<sigma>
  assume a: "t < length (nodes \<sigma>) \<and> wf_heap (nodes \<sigma>) \<and> table_ok \<sigma> \<and>
      slack (nodes \<sigma>) (cost2reach (nodes \<sigma> ! t) + 1) < fuel"
  then have t: "t < length (nodes \<sigma>)" and ok: "table_ok \<sigma>"
    by simp_all
  from a expand_returns[of t \<sigma> fuel "nextStates (state (nodes \<sigma> ! t))"]
  obtain \<sigma>' where e: "expand fuel t (nextStates (state (nodes \<sigma> ! t))) \<sigma> = Inr \<sigma>'"
    by blast
  have all: "\<exists>es. printed \<sigma>' = printed \<sigma> @ es \<and> u \<in> set (concat (map reported_by es))"
    if "winningNode \<sigma>' = None" "u \<in> set (nextStates (state (nodes \<sigma> ! t)))" for u
  proof -
    from that(2) have "FL u = (\<not> FL (state (nodes \<sigma> ! t)))"
      by (rule nextStates_flip)
    then have "u \<noteq> state (nodes \<sigma> ! t)"
      by auto
    from expand_reports_all[OF e that(1,2) this t] show ?thesis .
  qed
  have par: "p \<in> set (children (nodes \<sigma>' ! t)) \<and>
      (\<exists>es r g hh. printed \<sigma>' = printed \<sigma> @ es \<and> r \<noteq> New_node \<and>
         Generated (state (nodes \<sigma> ! p)) r g hh \<in> set es)"
    if w: "winningNode \<sigma>' = None" and
      b: "parent (nodes \<sigma> ! t) = Some p \<and> p < length (nodes \<sigma>) \<and>
          state (nodes \<sigma> ! t) \<in> set (nextStates (state (nodes \<sigma> ! p)))" for p
  proof -
    from b have m: "state (nodes \<sigma> ! p) \<in> set (nextStates (state (nodes \<sigma> ! t)))"
      using nextStates_sym by blast
    then have "FL (state (nodes \<sigma> ! p)) = (\<not> FL (state (nodes \<sigma> ! t)))"
      by (rule nextStates_flip)
    then have ne: "state (nodes \<sigma> ! p) \<noteq> state (nodes \<sigma> ! t)"
      by auto
    from b have "p < length (nodes \<sigma>)"
      by simp
    from table_ok_nth[OF ok this] have g: "generated \<sigma> (state (nodes \<sigma> ! p)) = Some p" .
    from expand_reaches_state[OF e w m g ne t] show ?thesis .
  qed
  from e all par
  show "\<exists>\<sigma>'. expand fuel t (nextStates (state (nodes \<sigma> ! t))) \<sigma> = Inr \<sigma>' \<and>
         (winningNode \<sigma>' = None \<longrightarrow>
            (\<forall>u \<in> set (nextStates (state (nodes \<sigma> ! t))).
               \<exists>es. printed \<sigma>' = printed \<sigma> @ es \<and> u \<in> set (concat (map reported_by es))) \<and>
            (\<forall>p. parent (nodes \<sigma> ! t) = Some p \<and> p < length (nodes \<sigma>) \<and>
                 state (nodes \<sigma> ! t) \<in> set (nextStates (state (nodes \<sigma> ! p))) \<longrightarrow>
               p \<in> set (children (nodes \<sigma>' ! t)) \<and>
               (\<exists>es r g hh. printed \<sigma>' = printed \<sigma> @ es \<and> r \<noteq> New_node \<and>
                  Generated (state (nodes \<sigma> ! p)) r g hh \<in> set es)))"
    by (intro exI[of _ \<sigma>'] conjI impI ballI allI) blast+
qed

text \<open>
  The expansion of node 1 in the second iteration, with fuel 1: it returns without a
  winning node, and the start node is among the children of node 1.
\<close>

theorem successor_filter_never_excludes_witness:
  "FWDCstate4 True False True False \<in> set (nextStates FWDCstate0) \<and>
   state_neq (FWDCstate4 True False True False) FWDCstate0 \<and>
   1 < length (nodes second_search) \<and> wf_heap (nodes second_search) \<and> table_ok second_search \<and>
   slack (nodes second_search) (cost2reach (nodes second_search ! 1) + 1) < 1 \<and>
   parent (nodes second_search ! 1) = Some 0 \<and> 0 < length (nodes second_search) \<and>
   state (nodes second_search ! 1) \<in> set (nextStates (state (nodes second_search ! 0))) \<and>
   (\<exists>\<sigma>'. expand 1 1 (nextStates (state (nodes second_search ! 1))) second_search = Inr \<sigma>' \<and>
      winningNode \<sigma>' = None \<and> 0 \<in> set (children (nodes \<sigma>' ! 1)))"
proof -
  note fact0 = successor_filter_never_excludes[of FWDCstate0]
  have m: "FWDCstate4 True False True False \<in> set (nextStates FWDCstate0)"
    by (simp add: move_defs FWDCstate0_def)
  from fact0 have "\<forall>u \<in> set (nextStates FWDCstate0). state_neq u FWDCstate0"
    by (elim conjE)
  from bspec[OF this m] have n: "state_neq (FWDCstate4 True False True False) FWDCstate0" .
  have pre: "1 < length (nodes second_search) \<and> wf_heap (nodes second_search) \<and>
      table_ok second_search \<and>
      slack (nodes second_search) (cost2reach (nodes second_search ! 1) + 1) < 1"
    using second_search_wf(1,3,4) second_search_table_ok by (intro conjI)
  have par: "parent (nodes second_search ! 1) = Some 0 \<and> 0 < length (nodes second_search) \<and>
      state (nodes second_search ! 1) \<in> set (nextStates (state (nodes second_search ! 0)))"
    using second_search_wf(2,5,6) by (intro conjI)
  from fact0 have "\<forall>fuel t \<sigma>.
      t < length (nodes \<sigma>) \<and> wf_heap (nodes \<sigma>) \<and> table_ok \<sigma> \<and>
      slack (nodes \<sigma>) (cost2reach (nodes \<sigma> ! t) + 1) < fuel \<longrightarrow>
      (\<exists>\<sigma>'. expand fuel t (nextStates (state (nodes \<sigma> ! t))) \<sigma> = Inr \<sigma>' \<and>
         (winningNode \<sigma>' = None \<longrightarrow>
            (\<forall>u \<in> set (nextStates (state (nodes \<sigma> ! t))).
               \<exists>es. printed \<sigma>' = printed \<sigma> @ es \<and> u \<in> set (concat (map reported_by es))) \<and>
            (\<forall>p. parent (nodes \<sigma> ! t) = Some p \<and> p < length (nodes \<sigma>) \<and>
                 state (nodes \<sigma> ! t) \<in> set (nextStates (state (nodes \<sigma> ! p))) \<longrightarrow>
               p \<in> set (children (nodes \<sigma>' ! t)) \<and>
               (\<exists>es r g hh. printed \<sigma>' = printed \<sigma> @ es \<and> r \<noteq> New_node \<and>
                  Generated (state (nodes \<sigma> ! p)) r g hh \<in> set es))))"
    by (elim conjE)
  from this[THEN spec[of _ 1], THEN spec[of _ 1], THEN spec[of _ second_search], THEN mp, OF pre]
  obtain \<sigma>' where ec:
    "expand 1 1 (nextStates (state (nodes second_search ! 1))) second_search = Inr \<sigma>' \<and>
         (winningNode \<sigma>' = None \<longrightarrow>
            (\<forall>u \<in> set (nextStates (state (nodes second_search ! 1))).
               \<exists>es. printed \<sigma>' = printed second_search @ es \<and> u \<in> set (concat (map reported_by es))) \<and>
            (\<forall>p. parent (nodes second_search ! 1) = Some p \<and> p < length (nodes second_search) \<and>
                 state (nodes second_search ! 1) \<in> set (nextStates (state (nodes second_search ! p))) \<longrightarrow>
               p \<in> set (children (nodes \<sigma>' ! 1)) \<and>
               (\<exists>es r g hh. printed \<sigma>' = printed second_search @ es \<and> r \<noteq> New_node \<and>
                  Generated (state (nodes second_search ! p)) r g hh \<in> set es)))"
    by (rule exE)
  from ec have e: "expand 1 1 (nextStates (state (nodes second_search ! 1))) second_search = Inr \<sigma>'"
    by (rule conjunct1)
  then have "expand 1 1 (nextStates (FWDCstate4 True False True False)) second_search = Inr \<sigma>'"
    unfolding second_search_state_1 .
  then have "projr (expand 1 1 (nextStates (FWDCstate4 True False True False)) second_search) = \<sigma>'"
    by (rule arg_cong[where f = projr, THEN trans]) (rule sum.sel)
  with second_search_expand_winning have w: "winningNode \<sigma>' = None"
    by (rule subst[rotated])
  from ec[THEN conjunct2, THEN mp, OF w, THEN conjunct2, THEN spec[of _ 0], THEN mp, OF par]
  have ch: "0 \<in> set (children (nodes \<sigma>' ! 1))"
    by (rule conjunct1)
  from e w ch
  have "\<exists>\<sigma>'. expand 1 1 (nextStates (state (nodes second_search ! 1))) second_search = Inr \<sigma>' \<and>
      winningNode \<sigma>' = None \<and> 0 \<in> set (children (nodes \<sigma>' ! 1))"
    by (intro exI[of _ \<sigma>'] conjI)
  with m n pre par show ?thesis
    by (elim conjE) (intro conjI)
qed

end
